theory Spec2Isabelle
  imports Main "HOL-Library.Word"
begin

section \<open>Segment tree (common/src/seg\_tree.c)\<close>

text \<open>
  The offsets of a segment are C \<^verbatim>\<open>unsigned long\<close> values, modelled as 64-bit words:
  addition and subtraction wrap, comparisons are unsigned. The parameters
  \<^verbatim>\<open>start2\<close>, \<^verbatim>\<open>end2\<close>, \<^verbatim>\<open>new_start\<close> and \<^verbatim>\<open>new_end\<close> of
  \<^verbatim>\<open>get_non_overlapping_range\<close> are declared \<^verbatim>\<open>long\<close>, but every comparison there has an
  \<^verbatim>\<open>unsigned long\<close> operand, so C converts the other operand and compares unsigned; the
  values are stored back into \<^verbatim>\<open>unsigned long\<close> fields. The model therefore keeps them as
  64-bit words throughout. \<^verbatim>\<open>start2 - 1\<close> and \<^verbatim>\<open>end2 + 1\<close> are computed in \<^verbatim>\<open>long\<close>;
  at the one value where that overflows the model takes the two's complement result.
\<close>

type_synonym u64 = "64 word"

record seg_tree_node =
  start :: u64
  end' :: u64
  ptr :: u64

definition MIN_ul :: "u64 \<Rightarrow> u64 \<Rightarrow> u64" where
  "MIN_ul a b = (if a < b then a else b)"

definition MAX_ul :: "u64 \<Rightarrow> u64 \<Rightarrow> u64" where
  "MAX_ul a b = (if a > b then a else b)"

definition compare_func :: "seg_tree_node \<Rightarrow> seg_tree_node \<Rightarrow> int" where
  "compare_func node1 node2 =
     (if start node1 > end' node2 then 1
      else if end' node1 < start node2 then - 1
      else 0)"

subsection \<open>The red-black tree of tree.h\<close>

text \<open>
  The tree is kept by the \<^verbatim>\<open>RB_*\<close> macros of \<^verbatim>\<open>tree.h\<close>, which is not among the sources.
  The model keeps the nodes of the tree as the list of its in-order traversal and takes the
  one thing that depends on the shape of the tree as a parameter: when several stored nodes
  compare equal to the inserted one, the descent from the root returns the first of them it
  meets, and which one that is depends on the shape. The parameter \<open>pick\<close> makes that
  choice (an index into the stored nodes that compare equal); every result below holds for
  every \<open>pick\<close>. A descent finds a node that compares equal whenever one is stored, as
  long as \<open>compare_func\<close> orders the stored nodes (segments with \<open>start \<le> end\<close>, each
  ending before the next starts); \<open>tree_ok\<close> below is that condition, and every tree
  reached from the empty one by adding such segments satisfies it (\<open>run_tree_ok\<close>).
\<close>

type_synonym pick = "seg_tree_node list \<Rightarrow> seg_tree_node \<Rightarrow> nat"

text \<open>
  Modelled from the spec: \<^verbatim>\<open>tree.h\<close> is missing. Attaching a node at the leaf where
  the descent ends puts it, in the in-order sequence, behind the nodes it compares greater
  than.
\<close>

fun rb_attach :: "seg_tree_node \<Rightarrow> seg_tree_node list \<Rightarrow> seg_tree_node list" where
  "rb_attach elm [] = [elm]"
| "rb_attach elm (x # xs) =
     (if compare_func elm x > 0 then x # rb_attach elm xs else elm # x # xs)"

text \<open>
  Modelled from the spec: \<^verbatim>\<open>tree.h\<close> is missing. \<^verbatim>\<open>RB_INSERT\<close> returns a stored node
  that compares equal to \<open>elm\<close> and leaves the tree alone, or attaches \<open>elm\<close> and
  returns \<^verbatim>\<open>NULL\<close> when there is none ("an ordering relation that treats overlapping
  intervals as equal").
\<close>

definition RB_INSERT ::
  "pick \<Rightarrow> seg_tree_node list \<Rightarrow> seg_tree_node \<Rightarrow> seg_tree_node option \<times> seg_tree_node list" where
  "RB_INSERT pick root elm =
     (let cs = filter (\<lambda>x. compare_func elm x = 0) root
      in if cs = [] then (None, rb_attach elm root)
         else (Some (cs ! (pick root elm mod length cs)), root))"

text \<open>Modelled from the spec: \<^verbatim>\<open>tree.h\<close> is missing. \<^verbatim>\<open>RB_REMOVE\<close> unlinks the node.\<close>

definition RB_REMOVE :: "seg_tree_node list \<Rightarrow> seg_tree_node \<Rightarrow> seg_tree_node list" where
  "RB_REMOVE root elm = remove1 elm root"

text \<open>
  Modelled from the spec: \<^verbatim>\<open>tree.h\<close> is missing. \<^verbatim>\<open>RB_NFIND\<close> returns a stored node
  that compares equal to \<open>elm\<close> if the descent meets one, and otherwise the least node
  greater than \<open>elm\<close>.
\<close>

definition RB_NFIND ::
  "pick \<Rightarrow> seg_tree_node list \<Rightarrow> seg_tree_node \<Rightarrow> seg_tree_node option" where
  "RB_NFIND pick root elm =
     (let cs = filter (\<lambda>x. compare_func elm x = 0) root
      in if cs = [] then List.find (\<lambda>x. compare_func elm x < 0) root
         else Some (cs ! (pick root elm mod length cs)))"

subsection \<open>The tree and its operations\<close>

text \<open>
  The read/write lock of \<^verbatim>\<open>struct seg_tree\<close> is not modelled: the operations are
  followed one call at a time.
\<close>

record seg_tree =
  head :: "seg_tree_node list"
  count :: u64
  max' :: u64

definition seg_tree_init :: seg_tree where
  "seg_tree_init = \<lparr>head = [], count = 0, max' = 0\<rparr>"

text \<open>
  \<^verbatim>\<open>calloc\<close> can fail. The list \<open>mem\<close> gives the outcomes of the coming calls of
  \<^verbatim>\<open>calloc\<close> in order (\<open>False\<close>: it returns \<^verbatim>\<open>NULL\<close>); past the end of the list every
  call succeeds.
\<close>

definition seg_tree_node_alloc ::
  "bool list \<Rightarrow> u64 \<Rightarrow> u64 \<Rightarrow> u64 \<Rightarrow> seg_tree_node option \<times> bool list" where
  "seg_tree_node_alloc mem s e p =
     (case mem of
        [] \<Rightarrow> (Some \<lparr>start = s, end' = e, ptr = p\<rparr>, [])
      | ok # mem' \<Rightarrow> (if ok then Some \<lparr>start = s, end' = e, ptr = p\<rparr> else None, mem'))"

text \<open>
  The result is the return code with the values of \<^verbatim>\<open>*new_start\<close> and
  \<^verbatim>\<open>*new_end\<close> after the call; \<open>new\<close> holds their values before it, which the
  function leaves alone where it assigns nothing.
\<close>

definition get_non_overlapping_range ::
  "u64 \<Rightarrow> u64 \<Rightarrow> u64 \<Rightarrow> u64 \<Rightarrow> u64 \<times> u64 \<Rightarrow> int \<times> u64 \<times> u64" where
  "get_non_overlapping_range start1 end1 start2 end2 new =
     (if start1 \<ge> start2 \<and> end1 \<le> end2 then (1, new)
      else if start1 < start2 then (0, start1, MIN_ul end1 (start2 - 1))
      else if start1 > start2 \<and> end1 > end2 then (0, MAX_ul start1 (end2 + 1), end1)
      else if start1 = start2 \<and> end1 > end2 then (0, end2 + 1, end1)
      else (0, new))"

datatype loop_exit = Inserted | Nomem | Nullderef

datatype ('s, 'r) pass = Again 's | Leave 'r

text \<open>
  One pass of the \<^verbatim>\<open>while\<close> loop of \<^verbatim>\<open>seg_tree_add\<close>, from the \<^verbatim>\<open>RB_INSERT\<close> in its
  condition to the end of its body. The state of the loop is the allocator, the variables
  \<^verbatim>\<open>new_start\<close> and \<^verbatim>\<open>new_end\<close>, and the tree. \<open>Leave Inserted\<close> is the normal end
  of the loop, \<open>Leave Nomem\<close> a \<^verbatim>\<open>return ENOMEM\<close> from inside it. The test
  \<^verbatim>\<open>if (!resized)\<close> that follows the allocation of \<^verbatim>\<open>remaining\<close> looks at
  \<^verbatim>\<open>resized\<close>, which is not \<^verbatim>\<open>NULL\<close> there, so a \<^verbatim>\<open>NULL\<close> in \<^verbatim>\<open>remaining\<close>
  reaches \<^verbatim>\<open>RB_INSERT\<close>, which dereferences it: \<open>Leave Nullderef\<close>.
  The arguments \<^verbatim>\<open>start\<close> and \<^verbatim>\<open>end\<close> of \<^verbatim>\<open>seg_tree_add\<close> are read here from
  \<open>node\<close>, which was allocated with them and is not changed.
\<close>

definition seg_tree_add_pass ::
  "pick \<Rightarrow> seg_tree_node \<Rightarrow> bool list \<times> (u64 \<times> u64) \<times> seg_tree
     \<Rightarrow> (bool list \<times> (u64 \<times> u64) \<times> seg_tree, loop_exit \<times> seg_tree) pass" where
  "seg_tree_add_pass pick node st =
     (case st of (mem, new, t) \<Rightarrow>
        (case RB_INSERT pick (head t) node of
           (None, root') \<Rightarrow> Leave (Inserted, t\<lparr>head := root'\<rparr>)
         | (Some overlap, _) \<Rightarrow>
             (case get_non_overlapping_range (start overlap) (end' overlap)
                     (start node) (end' node) new of
                (rc, new_start, new_end) \<Rightarrow>
                  if rc \<noteq> 0 then
                    Again (mem, (new_start, new_end),
                           t\<lparr>head := RB_REMOVE (head t) overlap, count := count t - 1\<rparr>)
                  else
                    (case seg_tree_node_alloc mem new_start new_end
                            (ptr overlap + (new_start - start overlap)) of
                       (None, _) \<Rightarrow> Leave (Nomem, t)
                     | (Some resized, mem1) \<Rightarrow>
                         let hd1 = RB_REMOVE (head t) overlap;
                             hd2 = snd (RB_INSERT pick hd1 resized)
                         in if end' resized + 1 \<ge> start overlap
                               \<and> end' resized + 1 \<le> end' overlap then
                              (case seg_tree_node_alloc mem1 (end' resized + 1) (end' overlap)
                                      (ptr overlap + (end' resized + 1 - start overlap)) of
                                 (None, _) \<Rightarrow> Leave (Nullderef, t\<lparr>head := hd2\<rparr>)
                               | (Some remaining, mem2) \<Rightarrow>
                                   Again (mem2, (new_start, new_end),
                                          t\<lparr>head := snd (RB_INSERT pick hd2 remaining),
                                            count := count t + 1\<rparr>))
                            else Again (mem1, (new_start, new_end), t\<lparr>head := hd2\<rparr>)))))"

subsection \<open>Termination of the loop of seg\_tree\_add\<close>

text \<open>
  Every pass that goes round again lowers the number of stored nodes that compare equal to
  the new node, or keeps it and lowers the number of those that start before the new node.
\<close>

definition overlap_measure :: "seg_tree_node \<Rightarrow> seg_tree_node list \<Rightarrow> nat" where
  "overlap_measure node root =
     length (filter (\<lambda>x. compare_func node x = 0) root)
     + length (filter (\<lambda>x. compare_func node x = 0 \<and> start x < start node) root)"

lemma RB_INSERT_None:
  "RB_INSERT pick root elm = (None, r) \<Longrightarrow>
     r = rb_attach elm root \<and> (\<forall>x\<in>set root. compare_func elm x \<noteq> 0)"
  by (auto simp: RB_INSERT_def Let_def filter_empty_conv split: if_splits)

lemma RB_INSERT_Some:
  "RB_INSERT pick root elm = (Some x, r) \<Longrightarrow>
     r = root \<and> x \<in> set root \<and> compare_func elm x = 0"
proof -
  assume a: "RB_INSERT pick root elm = (Some x, r)"
  let ?cs = "filter (\<lambda>x. compare_func elm x = 0) root"
  from a have ne: "?cs \<noteq> []" and r: "r = root"
    and x: "x = ?cs ! (pick root elm mod length ?cs)"
    by (auto simp: RB_INSERT_def Let_def split: if_splits)
  from ne have "pick root elm mod length ?cs < length ?cs" by simp
  then have "x \<in> set ?cs" unfolding x by (rule nth_mem)
  then show ?thesis using r by simp
qed

lemma snd_RB_INSERT:
  "snd (RB_INSERT pick root elm) =
     (if \<exists>x\<in>set root. compare_func elm x = 0 then root else rb_attach elm root)"
  by (auto simp: RB_INSERT_def Let_def filter_empty_conv)

lemma length_filter_rb_attach:
  "length (filter P (rb_attach elm root)) = length (filter P root) + (if P elm then 1 else 0)"
  by (induction root) auto

lemma length_filter_remove1_le:
  "length (filter P (remove1 x xs)) \<le> length (filter P xs)"
  by (induction xs) auto

lemma length_filter_remove1_less:
  "x \<in> set xs \<Longrightarrow> P x \<Longrightarrow> Suc (length (filter P (remove1 x xs))) = length (filter P xs)"
  by (induction xs) auto

lemma word_pred_less: "(a::u64) < b \<Longrightarrow> b - 1 < b" by unat_arith
lemma word_less_succ: "(a::u64) < b \<Longrightarrow> a < a + 1" by unat_arith
lemma word_le_pred: "(a::u64) < b \<Longrightarrow> a \<le> b - 1" by unat_arith
lemma word_succ_le: "(a::u64) < b \<Longrightarrow> a + 1 \<le> b" by unat_arith
lemma word_le_pred_iff: "(a::u64) < b \<Longrightarrow> x \<le> b - 1 \<longleftrightarrow> x < b" by unat_arith
lemma word_succ_le_iff: "(a::u64) < b \<Longrightarrow> a + 1 \<le> x \<longleftrightarrow> a < x" by unat_arith

lemma word_max_ge: "(a::u64) + 1 = 0 \<Longrightarrow> x \<le> a" by unat_arith

lemma length_filter_snd_RB_INSERT_le:
  "length (filter P (snd (RB_INSERT pick root elm)))
     \<le> length (filter P root) + (if P elm then 1 else 0)"
  by (simp add: snd_RB_INSERT length_filter_rb_attach)

lemma length_filter_snd_RB_INSERT_not:
  "\<not> P elm \<Longrightarrow> length (filter P (snd (RB_INSERT pick root elm))) = length (filter P root)"
  by (simp add: snd_RB_INSERT length_filter_rb_attach)

lemma snd_RB_INSERT_nonempty: "snd (RB_INSERT pick root elm) \<noteq> []"
  by (cases root) (auto simp: snd_RB_INSERT)

lemma alloc_Some:
  "seg_tree_node_alloc mem s e p = (Some n, mem') \<Longrightarrow> n = \<lparr>start = s, end' = e, ptr = p\<rparr>"
  by (auto simp: seg_tree_node_alloc_def split: list.splits if_splits)

lemma gnor_rc:
  "get_non_overlapping_range s1 e1 s2 e2 new = (rc, ns, ne) \<Longrightarrow>
     rc \<noteq> 0 \<longleftrightarrow> (s2 \<le> s1 \<and> e1 \<le> e2)"
  by (auto simp: get_non_overlapping_range_def split: if_splits)

lemma gnor_left:
  "get_non_overlapping_range s1 e1 s2 e2 new = (rc, ns, ne) \<Longrightarrow> s1 < s2 \<Longrightarrow> s2 \<le> e1 \<Longrightarrow>
     rc = 0 \<and> ns = s1 \<and> ne = s2 - 1"
  by (auto simp: get_non_overlapping_range_def MIN_ul_def split: if_splits; unat_arith)

lemma gnor_right:
  "get_non_overlapping_range s1 e1 s2 e2 new = (rc, ns, ne) \<Longrightarrow> s2 \<le> s1 \<Longrightarrow> e2 < e1 \<Longrightarrow>
     s1 \<le> e2 \<Longrightarrow> rc = 0 \<and> ns = e2 + 1 \<and> ne = e1"
  by (auto simp: get_non_overlapping_range_def MAX_ul_def split: if_splits; unat_arith)

lemma compare_func_0: "compare_func a b = 0 \<longleftrightarrow> start a \<le> end' b \<and> start b \<le> end' a"
  by (auto simp: compare_func_def)

lemma pass_decreases:
  assumes a: "seg_tree_add_pass pick node (mem, new, t) = Again (mem', new', t')"
  shows "overlap_measure node (head t') < overlap_measure node (head t)"
proof -
  let ?P = "\<lambda>x. compare_func node x = 0"
  let ?Q = "\<lambda>x. compare_func node x = 0 \<and> start x < start node"
  obtain ov r where ins: "RB_INSERT pick (head t) node = (Some ov, r)"
    using a by (cases "RB_INSERT pick (head t) node"; cases "fst (RB_INSERT pick (head t) node)")
      (auto simp: seg_tree_add_pass_def)
  then have ov: "ov \<in> set (head t)" "?P ov" using RB_INSERT_Some by blast+
  then have ovr: "start node \<le> end' ov" "start ov \<le> end' node" by (auto simp: compare_func_0)
  obtain rc ns ne where g: "get_non_overlapping_range (start ov) (end' ov) (start node) (end' node) new = (rc, ns, ne)"
    by (metis prod_cases3)
  let ?hd1 = "remove1 ov (head t)"
  have P1: "Suc (length (filter ?P ?hd1)) = length (filter ?P (head t))"
    using ov by (intro length_filter_remove1_less) auto
  have Q1: "length (filter ?Q ?hd1) \<le> length (filter ?Q (head t))"
    by (rule length_filter_remove1_le)
  show ?thesis
  proof (cases "rc \<noteq> 0")
    case True
    then have "head t' = ?hd1" using a ins g by (auto simp: seg_tree_add_pass_def RB_REMOVE_def)
    then show ?thesis using P1 Q1 by (simp add: overlap_measure_def)
  next
    case False
    then have rc0: "rc = 0" by simp
    have nc: "\<not> (start node \<le> start ov \<and> end' ov \<le> end' node)" using gnor_rc[OF g] rc0 by simp
    obtain mem1 where al: "seg_tree_node_alloc mem ns ne (ptr ov + (ns - start ov)) = (Some \<lparr>start = ns, end' = ne, ptr = ptr ov + (ns - start ov)\<rparr>, mem1)"
      using a ins g rc0 
      by (cases "seg_tree_node_alloc mem ns ne (ptr ov + (ns - start ov))"; cases "fst (seg_tree_node_alloc mem ns ne (ptr ov + (ns - start ov)))")
         (auto simp: seg_tree_add_pass_def dest: alloc_Some)
    let ?rs = "\<lparr>start = ns, end' = ne, ptr = ptr ov + (ns - start ov)\<rparr>"
    let ?hd2 = "snd (RB_INSERT pick ?hd1 ?rs)"
    let ?rm = "\<lparr>start = ne + 1, end' = end' ov, ptr = ptr ov + (ne + 1 - start ov)\<rparr>"
    have t': "head t' = ?hd2 \<or> (ne + 1 \<ge> start ov \<and> ne + 1 \<le> end' ov \<and> head t' = snd (RB_INSERT pick ?hd2 ?rm))"
      using a ins g rc0 al
      by (auto simp: seg_tree_add_pass_def RB_REMOVE_def Let_def split: if_splits prod.splits option.splits dest!: alloc_Some)
    show ?thesis
    proof (cases "start ov < start node")
      case True
      from gnor_left[OF g True ovr(1)] have n: "ns = start ov" "ne = start node - 1" by auto
      have nP: "\<not> ?P ?rs" using True n by (simp add: compare_func_0) unat_arith
      have nQ: "\<not> ?Q ?rm" using True n by simp
      have Q1': "Suc (length (filter ?Q ?hd1)) = length (filter ?Q (head t))"
        using ov True by (intro length_filter_remove1_less) auto
      have P2: "length (filter ?P ?hd2) = length (filter ?P ?hd1)"
        using nP by (rule length_filter_snd_RB_INSERT_not)
      have Q2: "length (filter ?Q ?hd2) = length (filter ?Q ?hd1)"
        using nP by (intro length_filter_snd_RB_INSERT_not) simp
      have P3: "length (filter ?P (snd (RB_INSERT pick ?hd2 ?rm))) \<le> length (filter ?P ?hd2) + 1"
        using length_filter_snd_RB_INSERT_le[of ?P pick ?hd2 ?rm] by (simp split: if_splits)
      have Q3: "length (filter ?Q (snd (RB_INSERT pick ?hd2 ?rm))) = length (filter ?Q ?hd2)"
        using nQ by (rule length_filter_snd_RB_INSERT_not)
      from t' show ?thesis using P1 Q1' P2 Q2 P3 Q3 by (auto simp: overlap_measure_def)
    next
      case False
      then have le: "start node \<le> start ov" by simp
      with nc have lt: "end' node < end' ov" by simp
      from gnor_right[OF g le lt ovr(2)] have n: "ns = end' node + 1" "ne = end' ov" by auto
      have nP: "\<not> ?P ?rs" using lt n by (simp add: compare_func_0) unat_arith
      have P2: "length (filter ?P ?hd2) = length (filter ?P ?hd1)"
        using nP by (rule length_filter_snd_RB_INSERT_not)
      have Q2: "length (filter ?Q ?hd2) = length (filter ?Q ?hd1)"
        using nP by (intro length_filter_snd_RB_INSERT_not) simp
      have same: "snd (RB_INSERT pick ?hd2 ?rm) = ?hd2" if "ne + 1 \<ge> start ov" "ne + 1 \<le> end' ov"
      proof -
        from that n have "end' ov + 1 = 0" "start ov = 0" by unat_arith+
        then have "\<forall>x. compare_func ?rm x = 0" using n by (simp add: compare_func_0 word_max_ge)
        moreover have "?hd2 \<noteq> []" by (rule snd_RB_INSERT_nonempty)
        ultimately have "\<exists>x\<in>set ?hd2. compare_func ?rm x = 0" by (cases ?hd2) auto
        then show ?thesis by (simp only: snd_RB_INSERT if_True)
      qed
      from t' same have "head t' = ?hd2" by auto
      then show ?thesis using P1 Q1 P2 Q2 by (simp add: overlap_measure_def)
    qed
  qed
qed

function seg_tree_add_loop ::
  "pick \<Rightarrow> seg_tree_node \<Rightarrow> bool list \<times> (u64 \<times> u64) \<times> seg_tree \<Rightarrow> loop_exit \<times> seg_tree" where
  "seg_tree_add_loop pick node st =
     (case seg_tree_add_pass pick node st of
        Leave r \<Rightarrow> r
      | Again st' \<Rightarrow> seg_tree_add_loop pick node st')"
  by pat_completeness auto
termination
  by (relation "measure (\<lambda>(pick, node, st). overlap_measure node (head (snd (snd st))))")
     (auto dest: pass_decreases)

declare seg_tree_add_loop.simps [simp del]

text \<open>
  The result of \<^verbatim>\<open>seg_tree_add\<close>: the value it returns, or the crash on the
  \<^verbatim>\<open>NULL\<close> pointer. \<^verbatim>\<open>ENOMEM\<close> is the constant of \<^verbatim>\<open>errno.h\<close>. The
  \<^verbatim>\<open>return ENOMEM\<close> inside the loop leaves the new node allocated and the write lock
  taken; neither is part of the model.
\<close>

datatype add_result = Returns_0 | Returns_ENOMEM | Segfault

definition seg_tree_add ::
  "pick \<Rightarrow> bool list \<Rightarrow> seg_tree \<Rightarrow> u64 \<Rightarrow> u64 \<Rightarrow> u64 \<Rightarrow> add_result \<times> seg_tree" where
  "seg_tree_add pick mem t s e p =
     (case seg_tree_node_alloc mem s e p of
        (None, _) \<Rightarrow> (Returns_ENOMEM, t)
      | (Some node, mem1) \<Rightarrow>
          (case seg_tree_add_loop pick node (mem1, (0, 0), t) of
             (Nomem, t') \<Rightarrow> (Returns_ENOMEM, t')
           | (Nullderef, t') \<Rightarrow> (Segfault, t')
           | (Inserted, t') \<Rightarrow>
               (Returns_0, t'\<lparr>count := count t' + 1, max' := MAX_ul (max' t') e\<rparr>)))"

definition seg_tree_find_nolock ::
  "pick \<Rightarrow> bool list \<Rightarrow> seg_tree \<Rightarrow> u64 \<Rightarrow> u64 \<Rightarrow> seg_tree_node option" where
  "seg_tree_find_nolock pick mem t s e =
     (case seg_tree_node_alloc mem s s 0 of
        (None, _) \<Rightarrow> None
      | (Some node, _) \<Rightarrow>
          (case RB_NFIND pick (head t) node of
             None \<Rightarrow> None
           | Some next \<Rightarrow> if start next \<le> e then Some next else None))"

subsection \<open>Iteration and clearing\<close>

text \<open>
  Modelled from the spec: \<^verbatim>\<open>tree.h\<close> is missing. \<^verbatim>\<open>RB_MIN\<close> is the first node in
  order, \<^verbatim>\<open>RB_FIND\<close> a stored node that compares equal to \<open>elm\<close> (the one the descent
  meets), \<^verbatim>\<open>RB_NEXT\<close> the node that follows \<open>elm\<close> in order; \<^verbatim>\<open>RB_NEXT\<close> follows
  the links of \<open>elm\<close> itself, so it is \<^verbatim>\<open>NULL\<close> here for a node that is not in the
  tree.
\<close>

definition RB_MIN :: "seg_tree_node list \<Rightarrow> seg_tree_node option" where
  "RB_MIN root = (case root of [] \<Rightarrow> None | x # _ \<Rightarrow> Some x)"

definition RB_FIND ::
  "pick \<Rightarrow> seg_tree_node list \<Rightarrow> seg_tree_node \<Rightarrow> seg_tree_node option" where
  "RB_FIND pick root elm =
     (let cs = filter (\<lambda>x. compare_func elm x = 0) root
      in if cs = [] then None else Some (cs ! (pick root elm mod length cs)))"

definition RB_NEXT :: "seg_tree_node list \<Rightarrow> seg_tree_node \<Rightarrow> seg_tree_node option" where
  "RB_NEXT root elm =
     (case dropWhile (\<lambda>x. x \<noteq> elm) root of
        _ # y # _ \<Rightarrow> Some y
      | _ \<Rightarrow> None)"

definition seg_tree_iter ::
  "pick \<Rightarrow> seg_tree \<Rightarrow> seg_tree_node option \<Rightarrow> seg_tree_node option" where
  "seg_tree_iter pick t st =
     (case st of
        None \<Rightarrow> RB_MIN (head t)
      | Some n \<Rightarrow>
          (case RB_FIND pick (head t) n of
             None \<Rightarrow> None
           | Some _ \<Rightarrow> RB_NEXT (head t) n))"

lemma RB_NEXT_Some_mem: "RB_NEXT root elm = Some y \<Longrightarrow> elm \<in> set root"
proof (rule ccontr)
  assume a: "RB_NEXT root elm = Some y" and "elm \<notin> set root"
  then have "dropWhile (\<lambda>x. x \<noteq> elm) root = []" by auto
  with a show False by (simp add: RB_NEXT_def)
qed

lemma seg_tree_iter_Some_mem:
  "seg_tree_iter pick t (Some n) = Some y \<Longrightarrow> n \<in> set (head t)"
  by (auto simp: seg_tree_iter_def split: option.splits dest: RB_NEXT_Some_mem)

text \<open>
  The \<^verbatim>\<open>while\<close> loop of \<^verbatim>\<open>seg_tree_clear\<close>, with its variables \<^verbatim>\<open>node\<close> and
  \<^verbatim>\<open>oldnode\<close>; the removal that follows the loop is in \<open>seg_tree_clear\<close>. On an empty
  tree \<^verbatim>\<open>seg_tree_clear\<close> returns at once and leaves \<^verbatim>\<open>count\<close> and \<^verbatim>\<open>max\<close> as
  they are.
\<close>

function seg_tree_clear_loop ::
  "pick \<Rightarrow> seg_tree \<Rightarrow> seg_tree_node option \<Rightarrow> seg_tree_node option
     \<Rightarrow> seg_tree \<times> seg_tree_node option" where
  "seg_tree_clear_loop pick t node oldnode =
     (case seg_tree_iter pick t node of
        None \<Rightarrow> (t, oldnode)
      | Some n \<Rightarrow>
          seg_tree_clear_loop pick
            (case oldnode of
               None \<Rightarrow> t
             | Some old \<Rightarrow> t\<lparr>head := RB_REMOVE (head t) old\<rparr>)
            (Some n) (Some n))"
  by pat_completeness auto
termination
proof (relation "measure (\<lambda>(pick, t, node, oldnode).
          2 * length (head t) + (if node = oldnode \<and> node \<noteq> None then 0 else 1))")
  show "wf (measure (\<lambda>(pick, t, node, oldnode).
          2 * length (head t) + (if node = oldnode \<and> node \<noteq> None then 0 else 1)))"
    by simp
next
  fix pick t node oldnode n
  assume it: "seg_tree_iter pick t node = Some n"
  show "((pick, case oldnode of None \<Rightarrow> t | Some old \<Rightarrow> t\<lparr>head := RB_REMOVE (head t) old\<rparr>,
           Some n, Some n), pick, t, node, oldnode)
        \<in> measure (\<lambda>(pick, t, node, oldnode).
          2 * length (head t) + (if node = oldnode \<and> node \<noteq> None then 0 else 1))"
  proof (cases "node = oldnode \<and> node \<noteq> None")
    case True
    then obtain old where o: "node = Some old" "oldnode = Some old" by auto
    with it have "old \<in> set (head t)" by (auto dest: seg_tree_iter_Some_mem)
    then have "length (remove1 old (head t)) < length (head t)"
      by (simp add: length_remove1) (cases "head t"; simp)
    with o show ?thesis by (simp add: RB_REMOVE_def)
  next
    case False
    then show ?thesis by (auto simp: RB_REMOVE_def length_remove1 split: option.splits)
  qed
qed

declare seg_tree_clear_loop.simps [simp del]

definition seg_tree_clear :: "pick \<Rightarrow> seg_tree \<Rightarrow> seg_tree" where
  "seg_tree_clear pick t =
     (if head t = [] then t
      else
        (case seg_tree_clear_loop pick t None None of
           (t', oldnode) \<Rightarrow>
             (case oldnode of
                None \<Rightarrow> t'
              | Some old \<Rightarrow> t'\<lparr>head := RB_REMOVE (head t') old\<rparr>)
             \<lparr>count := 0, max' := 0\<rparr>))"

subsection \<open>Sequences of calls\<close>

text \<open>
  A call of \<^verbatim>\<open>seg_tree_add\<close> comes with what the environment decides during it: the
  choices of the descent and the outcomes of \<^verbatim>\<open>calloc\<close>. A run ends at the call that
  crashes. \<open>call_ok\<close> asks of an added segment that \<open>start \<le> end\<close>, the invariant of a
  segment in the data model.
\<close>

datatype call = Add pick "bool list" u64 u64 u64 | Clear pick

fun run :: "call list \<Rightarrow> seg_tree \<Rightarrow> seg_tree" where
  "run [] t = t"
| "run (Add pick mem s e p # cs) t =
     (case seg_tree_add pick mem t s e p of
        (Segfault, t') \<Rightarrow> t'
      | (_, t') \<Rightarrow> run cs t')"
| "run (Clear pick # cs) t = run cs (seg_tree_clear pick t)"

fun call_ok :: "call \<Rightarrow> bool" where
  "call_ok (Add pick mem s e p) \<longleftrightarrow> s \<le> e"
| "call_ok (Clear pick) \<longleftrightarrow> True"

text \<open>A descent that returns the first, in order, of the nodes that compare equal.\<close>

definition pick_first :: pick where
  "pick_first root elm = 0"

section \<open>The non-overlap invariant and the mapping of offsets\<close>

text \<open>
  A tree is well formed when its nodes, in order, are segments with \<open>start \<le> end\<close> each
  of which ends before the next one starts. \<open>non_overlap\<close> is the invariant as the
  specification words it, over pairs of distinct segments.
\<close>

definition tree_ok :: "seg_tree_node list \<Rightarrow> bool" where
  "tree_ok root \<longleftrightarrow>
     sorted_wrt (\<lambda>a b. end' a < start b) root \<and> (\<forall>a\<in>set root. start a \<le> end' a)"

definition non_overlap :: "seg_tree_node list \<Rightarrow> bool" where
  "non_overlap root \<longleftrightarrow>
     (\<forall>a\<in>set root. \<forall>b\<in>set root. a \<noteq> b \<longrightarrow> end' a < start b \<or> end' b < start a)"

text \<open>
  What a pass of the loop leaves of a stored segment \<open>ov\<close> that overlaps the new
  node: nothing when the new node covers it, the part left of the new node together with
  the rest (which the next pass meets again) when it starts earlier, and else the part
  right of the new node.
\<close>

definition split_pieces :: "seg_tree_node \<Rightarrow> seg_tree_node \<Rightarrow> seg_tree_node set" where
  "split_pieces node ov =
     (if start node \<le> start ov \<and> end' ov \<le> end' node then {}
      else if start ov < start node then
        {\<lparr>start = start ov, end' = start node - 1, ptr = ptr ov\<rparr>,
         \<lparr>start = start node, end' = end' ov, ptr = ptr ov + (start node - start ov)\<rparr>}
      else {\<lparr>start = end' node + 1, end' = end' ov,
             ptr = ptr ov + (end' node + 1 - start ov)\<rparr>})"

text \<open>
  A segment \<open>a\<close> covers the offsets from its start to its end and places offset \<open>x\<close>
  at \<open>ptr a + (x - start a)\<close> in the log. \<open>trimmed_from a b\<close>: \<open>a\<close> is a part of
  \<open>b\<close> that places its offsets where \<open>b\<close> did.
\<close>

definition covers :: "seg_tree_node \<Rightarrow> u64 \<Rightarrow> bool" where
  "covers a x \<longleftrightarrow> start a \<le> x \<and> x \<le> end' a"

definition phys :: "seg_tree_node \<Rightarrow> u64 \<Rightarrow> u64" where
  "phys a x = ptr a + (x - start a)"

definition maps_to :: "seg_tree_node list \<Rightarrow> u64 \<Rightarrow> u64 \<Rightarrow> bool" where
  "maps_to root x y \<longleftrightarrow> (\<exists>a\<in>set root. covers a x \<and> phys a x = y)"

definition trimmed_from :: "seg_tree_node \<Rightarrow> seg_tree_node \<Rightarrow> bool" where
  "trimmed_from a b \<longleftrightarrow> start b \<le> start a \<and> end' a \<le> end' b \<and> ptr a = ptr b + (start a - start b)"

definition split_rel :: "seg_tree_node \<Rightarrow> seg_tree_node list \<Rightarrow> seg_tree_node list \<Rightarrow> bool" where
  "split_rel node root root' \<longleftrightarrow>
     (\<forall>x y. \<not> covers node x \<longrightarrow> (maps_to root' x y \<longleftrightarrow> maps_to root x y))
     \<and> (\<forall>q\<in>set root'. \<exists>b\<in>set root. trimmed_from q b)"

definition add_rel :: "seg_tree_node \<Rightarrow> seg_tree_node list \<Rightarrow> seg_tree_node list \<Rightarrow> bool" where
  "add_rel node root root' \<longleftrightarrow>
     (\<forall>x y. \<not> covers node x \<longrightarrow> (maps_to root' x y \<longleftrightarrow> maps_to root x y))
     \<and> (\<forall>q\<in>set root'. q = node \<or> (\<exists>b\<in>set root. trimmed_from q b))"

lemma tree_ok_Nil: "tree_ok []"
  by (simp add: tree_ok_def)

lemma tree_ok_Cons:
  "tree_ok (x # xs) \<longleftrightarrow> start x \<le> end' x \<and> (\<forall>y\<in>set xs. end' x < start y) \<and> tree_ok xs"
  by (auto simp: tree_ok_def)

lemma tree_ok_pairs:
  "tree_ok root \<Longrightarrow> a \<in> set root \<Longrightarrow> b \<in> set root \<Longrightarrow> a \<noteq> b \<Longrightarrow>
     end' a < start b \<or> end' b < start a"
  by (induction root) (auto simp: tree_ok_Cons)

lemma tree_ok_non_overlap: "tree_ok root \<Longrightarrow> non_overlap root"
  unfolding non_overlap_def using tree_ok_pairs by blast

lemma tree_ok_distinct: "tree_ok root \<Longrightarrow> distinct root"
  by (induction root) (auto simp: tree_ok_Cons)

lemma tree_ok_remove1: "tree_ok root \<Longrightarrow> tree_ok (remove1 x root)"
  by (induction root) (auto simp: tree_ok_Cons dest: notin_set_remove1)

lemma set_rb_attach: "set (rb_attach elm root) = insert elm (set root)"
  by (induction root) auto

lemma tree_ok_rb_attach:
  "tree_ok root \<Longrightarrow> start elm \<le> end' elm \<Longrightarrow> \<forall>x\<in>set root. compare_func elm x \<noteq> 0 \<Longrightarrow>
     tree_ok (rb_attach elm root)"
proof (induction root)
  case Nil
  then show ?case by (simp add: tree_ok_Cons tree_ok_Nil)
next
  case (Cons x xs)
  show ?case
  proof (cases "compare_func elm x > 0")
    case True
    then have "end' x < start elm" by (auto simp: compare_func_def split: if_splits)
    with Cons True show ?thesis by (auto simp: tree_ok_Cons set_rb_attach)
  next
    case False
    with Cons.prems(3) have lt: "end' elm < start x"
      by (auto simp: compare_func_def split: if_splits)
    have "end' elm < start y" if "y \<in> set xs" for y
    proof -
      from Cons.prems(1) that have "start x \<le> end' x" "end' x < start y"
        by (auto simp: tree_ok_Cons)
      with lt show ?thesis by simp
    qed
    with Cons.prems False lt show ?thesis by (auto simp: tree_ok_Cons)
  qed
qed

lemma word_pred_le: "(a::u64) < s \<Longrightarrow> s \<le> b \<Longrightarrow> s - 1 \<le> b" by unat_arith

lemma word_le_succ: "(a::u64) \<le> e \<Longrightarrow> e < b \<Longrightarrow> a \<le> e + 1" by unat_arith

lemma set_remove1_tree_ok: "tree_ok root \<Longrightarrow> set (remove1 x root) = set root - {x}"
  by (simp add: tree_ok_distinct)

lemma piece_no_collision:
  assumes ok: "tree_ok root" and ov: "ov \<in> set root"
    and q: "start ov \<le> start q" "end' q \<le> end' ov"
  shows "\<forall>x\<in>set (remove1 ov root). compare_func q x \<noteq> 0"
proof
  fix x assume "x \<in> set (remove1 ov root)"
  with ok have x: "x \<in> set root" "x \<noteq> ov" by (auto simp: set_remove1_tree_ok)
  from tree_ok_pairs[OF ok x(1) ov x(2)] have "end' x < start ov \<or> end' ov < start x" .
  with q show "compare_func q x \<noteq> 0" by (auto simp: compare_func_def)
qed

lemma RB_INSERT_attach:
  "\<forall>x\<in>set root. compare_func elm x \<noteq> 0 \<Longrightarrow> RB_INSERT pick root elm = (None, rb_attach elm root)"
  by (auto simp: RB_INSERT_def Let_def filter_empty_conv)

lemma pass_ok:
  assumes ok: "tree_ok (head t)" and wf: "start node \<le> end' node"
  shows "case seg_tree_add_pass pick node (mem, new, t) of
           Again (mem', new', t') \<Rightarrow>
             (\<exists>ov\<in>set (head t). compare_func node ov = 0 \<and> tree_ok (head t')
                \<and> set (head t') = set (head t) - {ov} \<union> split_pieces node ov)
         | Leave (x, t') \<Rightarrow>
             tree_ok (head t')
             \<and> (x = Inserted \<longrightarrow> (\<forall>y\<in>set (head t). compare_func node y \<noteq> 0)
                                  \<and> head t' = rb_attach node (head t))
             \<and> (x = Nomem \<longrightarrow> t' = t)"
proof (cases "fst (RB_INSERT pick (head t) node)")
  case None
  then obtain r where ins: "RB_INSERT pick (head t) node = (None, r)"
    by (cases "RB_INSERT pick (head t) node") auto
  from RB_INSERT_None[OF ins] have r: "r = rb_attach node (head t)"
    and nc: "\<forall>x\<in>set (head t). compare_func node x \<noteq> 0" by auto
  have "tree_ok r" unfolding r using ok wf nc by (rule tree_ok_rb_attach)
  then show ?thesis using ins r nc by (simp add: seg_tree_add_pass_def)
next
  case (Some ov)
  then obtain r where ins: "RB_INSERT pick (head t) node = (Some ov, r)"
    by (cases "RB_INSERT pick (head t) node") auto
  from RB_INSERT_Some[OF ins] have ov: "ov \<in> set (head t)" and c0: "compare_func node ov = 0"
    by auto
  then have ovr: "start node \<le> end' ov" "start ov \<le> end' node" by (auto simp: compare_func_0)
  from ok ov have wfo: "start ov \<le> end' ov" by (auto simp: tree_ok_def)
  obtain rc ns ne where g: "get_non_overlapping_range (start ov) (end' ov) (start node) (end' node) new = (rc, ns, ne)"
    by (metis prod_cases3)
  let ?hd1 = "remove1 ov (head t)"
  have ok1: "tree_ok ?hd1" using ok by (rule tree_ok_remove1)
  have set1: "set ?hd1 = set (head t) - {ov}" using ok by (rule set_remove1_tree_ok)
  show ?thesis
  proof (cases "rc \<noteq> 0")
    case True
    with gnor_rc[OF g] have "split_pieces node ov = {}" by (simp add: split_pieces_def)
    with True ov c0 ok1 set1 show ?thesis
      using ins g by (auto simp: seg_tree_add_pass_def RB_REMOVE_def)
  next
    case False
    then have rc0: "rc = 0" by simp
    have nc: "\<not> (start node \<le> start ov \<and> end' ov \<le> end' node)"
      using gnor_rc[OF g] rc0 by simp
    let ?rs = "\<lparr>start = ns, end' = ne, ptr = ptr ov + (ns - start ov)\<rparr>"
    let ?rm = "\<lparr>start = ne + 1, end' = end' ov, ptr = ptr ov + (ne + 1 - start ov)\<rparr>"
    obtain a1 mem1 where al: "seg_tree_node_alloc mem ns ne (ptr ov + (ns - start ov)) = (a1, mem1)"
      by (cases "seg_tree_node_alloc mem ns ne (ptr ov + (ns - start ov))")
    show ?thesis
    proof (cases a1)
      case None
      with al ok show ?thesis using ins g rc0 by (simp add: seg_tree_add_pass_def)
    next
      case (Some rs')
      with alloc_Some al have al': "seg_tree_node_alloc mem ns ne (ptr ov + (ns - start ov)) = (Some ?rs, mem1)"
        by metis
      obtain a2 mem2 where al2: "seg_tree_node_alloc mem1 (ne + 1) (end' ov) (ptr ov + (ne + 1 - start ov)) = (a2, mem2)"
        by (cases "seg_tree_node_alloc mem1 (ne + 1) (end' ov) (ptr ov + (ne + 1 - start ov))")
      have a2: "a2 = None \<or> a2 = Some ?rm" using al2 alloc_Some by (cases a2) auto
      show ?thesis
      proof (cases "start ov < start node")
        case True
        from gnor_left[OF g True ovr(1)] have n: "ns = start ov" "ne = start node - 1" by auto
        have ne1: "ne + 1 = start node" using n by simp
        have chk: "ne + 1 \<ge> start ov \<and> ne + 1 \<le> end' ov" using ne1 True ovr by simp
        have rs_in: "start ov \<le> start ?rs" "end' ?rs \<le> end' ov"
          using n word_pred_le[OF True ovr(1)] by simp_all
        have rs_wf: "start ?rs \<le> end' ?rs" using n word_le_pred[OF True] by simp
        have ncol: "\<forall>x\<in>set ?hd1. compare_func ?rs x \<noteq> 0"
          using ok ov rs_in by (rule piece_no_collision)
        then have i1: "RB_INSERT pick ?hd1 ?rs = (None, rb_attach ?rs ?hd1)" by (rule RB_INSERT_attach)
        let ?hd2 = "rb_attach ?rs ?hd1"
        have ok2: "tree_ok ?hd2" using ok1 rs_wf ncol by (rule tree_ok_rb_attach)
        have rm_in: "start ov \<le> start ?rm" "end' ?rm \<le> end' ov" using chk by simp_all
        have rm_wf: "start ?rm \<le> end' ?rm" using chk by simp
        have "compare_func ?rm ?rs \<noteq> 0" using n word_pred_less[OF True] by (simp add: compare_func_def)
        moreover have "\<forall>x\<in>set ?hd1. compare_func ?rm x \<noteq> 0"
          using ok ov rm_in by (rule piece_no_collision)
        ultimately have ncol2: "\<forall>x\<in>set ?hd2. compare_func ?rm x \<noteq> 0" by (simp add: set_rb_attach)
        then have i2: "RB_INSERT pick ?hd2 ?rm = (None, rb_attach ?rm ?hd2)" by (rule RB_INSERT_attach)
        have ok3: "tree_ok (rb_attach ?rm ?hd2)" using ok2 rm_wf ncol2 by (rule tree_ok_rb_attach)
        have sp: "split_pieces node ov = {?rs, ?rm}"
          using True nc n ne1 by (auto simp: split_pieces_def)
        have set3: "set (rb_attach ?rm ?hd2) = set (head t) - {ov} \<union> split_pieces node ov"
          unfolding sp by (auto simp: set_rb_attach set1)
        from a2 show ?thesis
        proof
          assume "a2 = None"
          then show ?thesis using ins g rc0 al' al2 chk i1 ok2
            by (simp add: seg_tree_add_pass_def RB_REMOVE_def Let_def)
        next
          assume "a2 = Some ?rm"
          then have "seg_tree_add_pass pick node (mem, new, t) =
              Again (mem2, (ns, ne), t\<lparr>head := rb_attach ?rm ?hd2, count := count t + 1\<rparr>)"
            using ins g rc0 al' al2 chk i1 i2
            by (simp add: seg_tree_add_pass_def RB_REMOVE_def Let_def)
          then show ?thesis using ov c0 ok3 set3 by auto
        qed
      next
        case False
        then have le: "start node \<le> start ov" by simp
        with nc have lt: "end' node < end' ov" by simp
        from gnor_right[OF g le lt ovr(2)] have n: "ns = end' node + 1" "ne = end' ov" by auto
        have rs_in: "start ov \<le> start ?rs" "end' ?rs \<le> end' ov"
          using n word_le_succ[OF ovr(2) lt] by simp_all
        have rs_wf: "start ?rs \<le> end' ?rs" using n word_succ_le[OF lt] by simp
        have ncol: "\<forall>x\<in>set ?hd1. compare_func ?rs x \<noteq> 0"
          using ok ov rs_in by (rule piece_no_collision)
        then have i1: "RB_INSERT pick ?hd1 ?rs = (None, rb_attach ?rs ?hd1)" by (rule RB_INSERT_attach)
        let ?hd2 = "rb_attach ?rs ?hd1"
        have ok2: "tree_ok ?hd2" using ok1 rs_wf ncol by (rule tree_ok_rb_attach)
        have sp: "split_pieces node ov = {?rs}"
          using False nc n by (auto simp: split_pieces_def)
        have set2: "set ?hd2 = set (head t) - {ov} \<union> split_pieces node ov"
          unfolding sp by (auto simp: set_rb_attach set1)
        have same: "snd (RB_INSERT pick ?hd2 ?rm) = ?hd2" if "ne + 1 \<ge> start ov \<and> ne + 1 \<le> end' ov"
        proof -
          from that n have "end' ov + 1 = 0" "start ov = 0" by unat_arith+
          then have "\<forall>x. compare_func ?rm x = 0" using n by (simp add: compare_func_0 word_max_ge)
          moreover have "?hd2 \<noteq> []" by (cases ?hd1) auto
          ultimately have "\<exists>x\<in>set ?hd2. compare_func ?rm x = 0" by (cases ?hd2) auto
          then show ?thesis by (simp only: snd_RB_INSERT if_True)
        qed
        show ?thesis
        proof (cases "ne + 1 \<ge> start ov \<and> ne + 1 \<le> end' ov")
          case True
          from a2 show ?thesis
          proof
            assume "a2 = None"
            then show ?thesis using ins g rc0 al' al2 True i1 ok2
              by (simp add: seg_tree_add_pass_def RB_REMOVE_def Let_def)
          next
            assume "a2 = Some ?rm"
            then have "seg_tree_add_pass pick node (mem, new, t) =
                Again (mem2, (ns, ne), t\<lparr>head := ?hd2, count := count t + 1\<rparr>)"
              using ins g rc0 al' al2 True i1 same[OF True]
              by (simp add: seg_tree_add_pass_def RB_REMOVE_def Let_def)
            then show ?thesis using ov c0 ok2 set2 by auto
          qed
        next
          case F2: False
          have "seg_tree_add_pass pick node (mem, new, t) =
                Again (mem1, (ns, ne), t\<lparr>head := ?hd2\<rparr>)"
            using ins g rc0 al' i1
            by (simp add: seg_tree_add_pass_def RB_REMOVE_def Let_def F2)
          then show ?thesis using ov c0 ok2 set2 by auto
        qed
      qed
    qed
  qed
qed

lemma trimmed_from_refl: "trimmed_from a a"
  by (simp add: trimmed_from_def)

lemma trimmed_from_trans: "trimmed_from a b \<Longrightarrow> trimmed_from b c \<Longrightarrow> trimmed_from a c"
  by (auto simp: trimmed_from_def)

lemma split_pieces_trimmed:
  assumes "compare_func node ov = 0" "q \<in> split_pieces node ov"
  shows "trimmed_from q ov"
proof -
  from assms(1) have ovr: "start node \<le> end' ov" "start ov \<le> end' node"
    by (auto simp: compare_func_0)
  show ?thesis
  proof (cases "start ov < start node")
    case True
    with assms(2) ovr word_pred_le[OF True ovr(1)] show ?thesis
      by (auto simp: split_pieces_def trimmed_from_def split: if_splits)
  next
    case False
    then have "start node \<le> start ov" by simp
    with assms(2) have lt: "end' node < end' ov" by (auto simp: split_pieces_def split: if_splits)
    with assms(2) False word_le_succ[OF ovr(2) lt] show ?thesis
      by (auto simp: split_pieces_def trimmed_from_def split: if_splits)
  qed
qed

lemma split_pieces_maps:
  assumes c0: "compare_func node ov = 0" and nx: "\<not> covers node x"
  shows "(\<exists>q\<in>split_pieces node ov. covers q x \<and> phys q x = y) \<longleftrightarrow> (covers ov x \<and> phys ov x = y)"
proof -
  from c0 have ovr: "start node \<le> end' ov" "start ov \<le> end' node" by (auto simp: compare_func_0)
  consider (cov) "start node \<le> start ov \<and> end' ov \<le> end' node"
    | (left) "start ov < start node"
    | (right) "start node \<le> start ov" "end' node < end' ov"
    by fastforce
  then show ?thesis
  proof cases
    case cov
    then have "\<not> covers ov x" using nx by (auto simp: covers_def)
    with cov show ?thesis by (simp add: split_pieces_def)
  next
    case left
    have 1: "x \<le> start node - 1 \<longleftrightarrow> x < start node" by (rule word_le_pred_iff[OF left])
    have "split_pieces node ov = {\<lparr>start = start ov, end' = start node - 1, ptr = ptr ov\<rparr>,
         \<lparr>start = start node, end' = end' ov, ptr = ptr ov + (start node - start ov)\<rparr>}"
      using left by (auto simp: split_pieces_def)
    then show ?thesis using ovr left 1 by (auto simp: covers_def phys_def)
  next
    case right
    have 1: "end' node + 1 \<le> x \<longleftrightarrow> end' node < x" by (rule word_succ_le_iff[OF right(2)])
    have "split_pieces node ov = {\<lparr>start = end' node + 1, end' = end' ov,
             ptr = ptr ov + (end' node + 1 - start ov)\<rparr>}"
      using right by (auto simp: split_pieces_def)
    then show ?thesis using ovr right 1 nx by (auto simp: covers_def phys_def)
  qed
qed

lemma add_rel_refl: "add_rel node root root"
  using trimmed_from_refl by (auto simp: add_rel_def)

lemma split_add_rel:
  assumes "split_rel node r1 r2" and "add_rel node r2 r3"
  shows "add_rel node r1 r3"
proof -
  have "q = node \<or> (\<exists>b\<in>set r1. trimmed_from q b)" if "q \<in> set r3" for q
  proof (cases "q = node")
    case False
    with that assms(2) obtain b where "b \<in> set r2" "trimmed_from q b"
      by (auto simp: add_rel_def)
    moreover from this assms(1) obtain c where "c \<in> set r1" "trimmed_from b c"
      by (auto simp: split_rel_def)
    ultimately show ?thesis using trimmed_from_trans by blast
  qed simp
  with assms show ?thesis by (simp add: add_rel_def split_rel_def)
qed

lemma add_rel_attach: "set root' = insert node (set root) \<Longrightarrow> add_rel node root root'"
  using trimmed_from_refl by (auto simp: add_rel_def maps_to_def)

lemma split_rel_split:
  assumes c0: "compare_func node ov = 0" and ov: "ov \<in> set root"
    and s: "set root' = set root - {ov} \<union> split_pieces node ov"
  shows "split_rel node root root'"
proof -
  have "maps_to root' x y \<longleftrightarrow> maps_to root x y" if nx: "\<not> covers node x" for x y
  proof -
    have "maps_to root' x y \<longleftrightarrow>
        (\<exists>a\<in>set root - {ov}. covers a x \<and> phys a x = y)
        \<or> (\<exists>q\<in>split_pieces node ov. covers q x \<and> phys q x = y)"
      unfolding maps_to_def s by blast
    also have "\<dots> \<longleftrightarrow> (\<exists>a\<in>set root - {ov}. covers a x \<and> phys a x = y)
        \<or> (covers ov x \<and> phys ov x = y)"
      unfolding split_pieces_maps[OF c0 nx] ..
    also have "\<dots> \<longleftrightarrow> maps_to root x y"
      unfolding maps_to_def using ov by blast
    finally show ?thesis .
  qed
  moreover have "\<exists>b\<in>set root. trimmed_from q b" if "q \<in> set root'" for q
  proof -
    from that s have "q \<in> set root \<or> q \<in> split_pieces node ov" by auto
    then show ?thesis using trimmed_from_refl split_pieces_trimmed[OF c0] ov by blast
  qed
  ultimately show ?thesis by (simp add: split_rel_def)
qed

lemma loop_ok_st:
  assumes "tree_ok (head (snd (snd st)))" and "start node \<le> end' node"
    and "seg_tree_add_loop pick node st = (x, t')"
  shows "tree_ok (head t')
     \<and> (x \<noteq> Nullderef \<longrightarrow> add_rel node (head (snd (snd st))) (head t'))
     \<and> (x = Inserted \<longrightarrow> node \<in> set (head t'))"
  using assms
proof (induction pick node st rule: seg_tree_add_loop.induct)
  case (1 pick node st)
  obtain mem new t where st: "st = (mem, new, t)" by (cases st) auto
  from "1.prems" st have ok: "tree_ok (head t)" and wf: "start node \<le> end' node"
    and res: "seg_tree_add_loop pick node (mem, new, t) = (x, t')" by auto
  note p = pass_ok[OF ok wf, of pick mem new]
  show ?case
  proof (cases "seg_tree_add_pass pick node (mem, new, t)")
    case (Leave r)
    with res have r: "r = (x, t')" by (simp add: seg_tree_add_loop.simps)
    from p Leave r have 1: "tree_ok (head t')"
      and 2: "x = Inserted \<Longrightarrow> head t' = rb_attach node (head t)"
      and 3: "x = Nomem \<Longrightarrow> t' = t" by auto
    have "add_rel node (head t) (head t')" if "x \<noteq> Nullderef"
    proof (cases x)
      case Inserted
      with 2 show ?thesis by (intro add_rel_attach) (simp add: set_rb_attach)
    next
      case Nomem
      with 3 show ?thesis by (simp add: add_rel_refl)
    next
      case Nullderef
      with that show ?thesis by simp
    qed
    moreover have "node \<in> set (head t')" if "x = Inserted"
      using 2[OF that] by (simp add: set_rb_attach)
    ultimately show ?thesis using 1 st by simp
  next
    case (Again st1)
    obtain mem1 new1 t1 where st1: "st1 = (mem1, new1, t1)" by (cases st1) auto
    from res Again have res1: "seg_tree_add_loop pick node st1 = (x, t')"
      by (simp add: seg_tree_add_loop.simps)
    from p Again st1 obtain ov where ov: "ov \<in> set (head t)" "compare_func node ov = 0"
      and ok1: "tree_ok (head t1)"
      and s1: "set (head t1) = set (head t) - {ov} \<union> split_pieces node ov" by auto
    from Again st have a': "seg_tree_add_pass pick node st = Again st1" by simp
    from ok1 st1 have ok1': "tree_ok (head (snd (snd st1)))" by simp
    from "1.IH"[OF a' ok1' wf res1] st1
    have ih: "tree_ok (head t')" "x \<noteq> Nullderef \<longrightarrow> add_rel node (head t1) (head t')"
      "x = Inserted \<longrightarrow> node \<in> set (head t')" by auto
    have "split_rel node (head t) (head t1)" using ov(2) ov(1) s1 by (rule split_rel_split)
    with ih show ?thesis using split_add_rel st by auto
  qed
qed

section \<open>What seg\_tree\_add and seg\_tree\_clear keep\<close>

lemma alloc_None:
  "seg_tree_node_alloc mem s e p = (None, mem') \<Longrightarrow> \<exists>m. mem = False # m"
  by (auto simp: seg_tree_node_alloc_def split: list.splits if_splits)

lemma add_ok:
  assumes ok: "tree_ok (head t)" and wf: "s \<le> e"
    and res: "seg_tree_add pick mem t s e p = (r, t')"
  shows "tree_ok (head t')
     \<and> (r \<noteq> Segfault \<longrightarrow> add_rel \<lparr>start = s, end' = e, ptr = p\<rparr> (head t) (head t'))
     \<and> (r = Returns_0 \<longrightarrow> \<lparr>start = s, end' = e, ptr = p\<rparr> \<in> set (head t'))"
proof (cases "fst (seg_tree_node_alloc mem s e p)")
  case None
  then have "seg_tree_add pick mem t s e p = (Returns_ENOMEM, t)"
    by (cases "seg_tree_node_alloc mem s e p") (simp add: seg_tree_add_def)
  with res ok show ?thesis by (auto simp: add_rel_refl)
next
  case (Some node)
  then obtain mem1 where al: "seg_tree_node_alloc mem s e p = (Some node, mem1)"
    by (cases "seg_tree_node_alloc mem s e p") auto
  from alloc_Some[OF al] have node: "node = \<lparr>start = s, end' = e, ptr = p\<rparr>" .
  obtain x t1 where lp: "seg_tree_add_loop pick node (mem1, (0, 0), t) = (x, t1)"
    by (cases "seg_tree_add_loop pick node (mem1, (0, 0), t)")
  have "start node \<le> end' node" using wf node by simp
  from loop_ok_st[OF _ this lp] ok
  have l: "tree_ok (head t1)" "x \<noteq> Nullderef \<longrightarrow> add_rel node (head t) (head t1)"
    "x = Inserted \<longrightarrow> node \<in> set (head t1)" by auto
  from res al lp have "(r, head t') = (case x of Inserted \<Rightarrow> Returns_0 | Nomem \<Rightarrow> Returns_ENOMEM
      | Nullderef \<Rightarrow> Segfault, head t1)"
    by (cases x) (auto simp: seg_tree_add_def)
  with l node show ?thesis by (cases x) auto
qed

lemma seg_tree_add_tree_ok:
  "tree_ok (head t) \<Longrightarrow> s \<le> e \<Longrightarrow> tree_ok (head (snd (seg_tree_add pick mem t s e p)))"
  using add_ok[of t s e pick mem p] by (cases "seg_tree_add pick mem t s e p") auto

lemma clear_loop_tree_ok:
  "tree_ok (head t) \<Longrightarrow> tree_ok (head (fst (seg_tree_clear_loop pick t node oldnode)))"
proof (induction pick t node oldnode rule: seg_tree_clear_loop.induct)
  case (1 pick t node oldnode)
  show ?case
  proof (cases "seg_tree_iter pick t node")
    case None
    with 1 show ?thesis by (simp add: seg_tree_clear_loop.simps)
  next
    case (Some n)
    let ?t1 = "case oldnode of None \<Rightarrow> t | Some old \<Rightarrow> t\<lparr>head := RB_REMOVE (head t) old\<rparr>"
    have "tree_ok (head ?t1)" using "1.prems"
      by (auto simp: RB_REMOVE_def tree_ok_remove1 split: option.splits)
    from "1.IH"[OF Some this] Some show ?thesis by (simp add: seg_tree_clear_loop.simps)
  qed
qed

lemma seg_tree_clear_tree_ok: "tree_ok (head t) \<Longrightarrow> tree_ok (head (seg_tree_clear pick t))"
  using clear_loop_tree_ok[of t pick None None]
  by (auto simp: seg_tree_clear_def RB_REMOVE_def tree_ok_remove1 split: prod.splits option.splits)

text \<open>\<^verbatim>\<open>seg_tree_clear\<close> removes every segment of a well-formed tree.\<close>

lemma clear_loop_from:
  "tree_ok (n # rest) \<Longrightarrow> head t = n # rest \<Longrightarrow>
     \<exists>t' m. seg_tree_clear_loop pick t (Some n) (Some n) = (t', Some m) \<and> head t' = [m]"
proof (induction rest arbitrary: n t)
  case Nil
  then have "compare_func n n = 0" by (simp add: tree_ok_Cons compare_func_0)
  with Nil have "seg_tree_iter pick t (Some n) = None"
    by (simp add: seg_tree_iter_def RB_FIND_def RB_NEXT_def)
  with Nil show ?case by (simp add: seg_tree_clear_loop.simps)
next
  case (Cons y rest)
  then have "compare_func n n = 0" by (simp add: tree_ok_Cons compare_func_0)
  with Cons.prems have it: "seg_tree_iter pick t (Some n) = Some y"
    by (simp add: seg_tree_iter_def RB_FIND_def RB_NEXT_def)
  let ?t1 = "t\<lparr>head := RB_REMOVE (head t) n\<rparr>"
  from Cons.prems have h1: "head ?t1 = y # rest" by (simp add: RB_REMOVE_def)
  from Cons.prems have "tree_ok (y # rest)" by (simp add: tree_ok_Cons)
  from Cons.IH[OF this h1] obtain t' m where
    "seg_tree_clear_loop pick ?t1 (Some y) (Some y) = (t', Some m)" "head t' = [m]" by blast
  with it show ?case by (simp add: seg_tree_clear_loop.simps[of pick t])
qed

lemma seg_tree_clear_empties:
  assumes "tree_ok (head t)"
  shows "head (seg_tree_clear pick t) = []"
proof (cases "head t")
  case Nil
  then show ?thesis by (simp add: seg_tree_clear_def)
next
  case (Cons n rest)
  then have "seg_tree_clear_loop pick t None None = seg_tree_clear_loop pick t (Some n) (Some n)"
    by (simp add: seg_tree_clear_loop.simps[of pick t None] seg_tree_iter_def RB_MIN_def)
  moreover from clear_loop_from[of n rest t pick] assms Cons obtain t' m where
    "seg_tree_clear_loop pick t (Some n) (Some n) = (t', Some m)" "head t' = [m]" by auto
  ultimately show ?thesis using Cons by (simp add: seg_tree_clear_def RB_REMOVE_def)
qed

lemma run_tree_ok:
  "tree_ok (head t) \<Longrightarrow> \<forall>c\<in>set calls. call_ok c \<Longrightarrow> tree_ok (head (run calls t))"
proof (induction calls t rule: run.induct)
  case (1 t)
  then show ?case by simp
next
  case (2 pick mem s e p cs t)
  then have ok': "tree_ok (head (snd (seg_tree_add pick mem t s e p)))"
    by (simp add: seg_tree_add_tree_ok)
  obtain r t' where r: "seg_tree_add pick mem t s e p = (r, t')"
    by (cases "seg_tree_add pick mem t s e p")
  show ?case
  proof (cases "r = Segfault")
    case True
    with r ok' show ?thesis by simp
  next
    case False
    with r have "run (Add pick mem s e p # cs) t = run cs t'" by (cases r) auto
    moreover have "tree_ok (head (run cs t'))" using 2 r ok' False by (cases r) auto
    ultimately show ?thesis by simp
  qed
next
  case (3 pick cs t)
  then show ?case by (simp add: seg_tree_clear_tree_ok)
qed

text \<open>
  C1. Non-overlap: start from the initialised empty tree and make any sequence of calls of
  \<^verbatim>\<open>seg_tree_add\<close> (of segments with \<open>start \<le> end\<close>, whatever the allocator and the
  descent do, failed calls included) and \<^verbatim>\<open>seg_tree_clear\<close>. After every call of the
  sequence, so after every add, any two distinct segments \<open>a\<close> and \<open>b\<close> of the tree
  satisfy \<open>a.end < b.start\<close> or \<open>b.end < a.start\<close>.
\<close>

theorem non_overlap_invariant:
  assumes "\<forall>c\<in>set calls. call_ok c"
  shows "non_overlap (head (run (take n calls) seg_tree_init))"
proof -
  have "tree_ok (head seg_tree_init)" by (simp add: seg_tree_init_def tree_ok_Nil)
  moreover have "\<forall>c\<in>set (take n calls). call_ok c" using assms by (meson in_set_takeD)
  ultimately have "tree_ok (head (run (take n calls) seg_tree_init))" by (rule run_tree_ok)
  then show ?thesis by (rule tree_ok_non_overlap)
qed

lemma covers_both:
  assumes ok: "tree_ok root" and a: "a \<in> set root" "covers a x" and b: "b \<in> set root" "covers b x"
  shows "a = b"
proof (rule ccontr)
  assume "a \<noteq> b"
  from tree_ok_pairs[OF ok a(1) b(1) this] a(2) b(2) show False
    by (auto simp: covers_def)
qed

text \<open>
  C2. Coverage displacement: on a well-formed tree, after a successful
  \<^verbatim>\<open>seg_tree_add(s, e, p)\<close> with \<open>s \<le> e\<close> the new segment is in the tree as it was
  given; every offset \<open>x\<close> of \<open>[s, e]\<close> is covered by exactly one segment, which places
  it at \<open>p + (x - s)\<close>; every offset outside \<open>[s, e]\<close> is placed where it was before
  (or nowhere, as before); and every other segment of the tree is a part of a segment that
  was there, placing its offsets where that one did, and lies wholly outside \<open>[s, e]\<close>:
  the segments that overlapped are deleted or trimmed to what does not overlap.
\<close>

theorem coverage_displacement:
  assumes ok: "tree_ok (head t)" and wf: "s \<le> e"
    and res: "seg_tree_add pick mem t s e p = (Returns_0, t')"
  shows "\<lparr>start = s, end' = e, ptr = p\<rparr> \<in> set (head t')
     \<and> (\<forall>x. s \<le> x \<and> x \<le> e \<longrightarrow>
           (\<exists>!a. a \<in> set (head t') \<and> covers a x)
           \<and> (\<forall>a\<in>set (head t'). covers a x \<longrightarrow> phys a x = p + (x - s)))
     \<and> (\<forall>x y. \<not> (s \<le> x \<and> x \<le> e) \<longrightarrow> maps_to (head t') x y = maps_to (head t) x y)
     \<and> (\<forall>q\<in>set (head t'). q = \<lparr>start = s, end' = e, ptr = p\<rparr>
           \<or> (\<exists>b\<in>set (head t). trimmed_from q b) \<and> (end' q < s \<or> e < start q))"
proof -
  let ?n = "\<lparr>start = s, end' = e, ptr = p\<rparr>"
  from add_ok[OF ok wf res] have ok': "tree_ok (head t')"
    and rel: "add_rel ?n (head t) (head t')" and mem: "?n \<in> set (head t')" by auto
  have inside: "(\<exists>!a. a \<in> set (head t') \<and> covers a x)
      \<and> (\<forall>a\<in>set (head t'). covers a x \<longrightarrow> phys a x = p + (x - s))"
    if x: "s \<le> x \<and> x \<le> e" for x
  proof -
    from x have c: "covers ?n x" by (simp add: covers_def)
    have u: "a = ?n" if "a \<in> set (head t')" "covers a x" for a
      using covers_both[OF ok' that mem c] .
    have "\<exists>!a. a \<in> set (head t') \<and> covers a x" using mem c u by blast
    moreover have "phys a x = p + (x - s)" if "a \<in> set (head t')" "covers a x" for a
      using u[OF that] by (simp add: phys_def)
    ultimately show ?thesis by blast
  qed
  have outside: "maps_to (head t') x y = maps_to (head t) x y" if "\<not> (s \<le> x \<and> x \<le> e)" for x y
  proof -
    from that have "\<not> covers ?n x" by (simp add: covers_def)
    with rel show ?thesis by (simp add: add_rel_def)
  qed
  have others: "q = ?n \<or> (\<exists>b\<in>set (head t). trimmed_from q b) \<and> (end' q < s \<or> e < start q)"
    if q: "q \<in> set (head t')" for q
  proof (cases "q = ?n")
    case False
    from tree_ok_pairs[OF ok' q mem False] have "end' q < s \<or> e < start q" by simp
    moreover from rel q False have "\<exists>b\<in>set (head t). trimmed_from q b" by (auto simp: add_rel_def)
    ultimately show ?thesis by simp
  qed simp
  from mem inside outside others show ?thesis by blast
qed

text \<open>
  C5 (as amended). Allocation failure: on a well-formed tree, when
  \<^verbatim>\<open>seg_tree_add(s, e, p)\<close> with \<open>s \<le> e\<close> returns \<^verbatim>\<open>ENOMEM\<close>, the tree still satisfies
  the non-overlap invariant and every offset outside \<open>[s, e]\<close> is placed where it was
  before; when it is the allocation of the new node that failed, the tree is unchanged.
  A later failure leaves the passes already made in place.
\<close>

theorem enomem_keeps_invariant:
  assumes ok: "tree_ok (head t)" and wf: "s \<le> e"
    and res: "seg_tree_add pick mem t s e p = (Returns_ENOMEM, t')"
  shows "non_overlap (head t')
     \<and> (\<forall>x y. \<not> (s \<le> x \<and> x \<le> e) \<longrightarrow> maps_to (head t') x y = maps_to (head t) x y)
     \<and> ((\<exists>m. mem = False # m) \<longrightarrow> t' = t)"
proof -
  let ?n = "\<lparr>start = s, end' = e, ptr = p\<rparr>"
  from add_ok[OF ok wf res] have ok': "tree_ok (head t')"
    and rel: "add_rel ?n (head t) (head t')" by auto
  have "maps_to (head t') x y = maps_to (head t) x y" if "\<not> (s \<le> x \<and> x \<le> e)" for x y
  proof -
    from that have "\<not> covers ?n x" by (simp add: covers_def)
    with rel show ?thesis by (simp add: add_rel_def)
  qed
  moreover have "t' = t" if "\<exists>m. mem = False # m"
    using that res by (auto simp: seg_tree_add_def seg_tree_node_alloc_def)
  ultimately show ?thesis using tree_ok_non_overlap[OF ok'] by blast
qed

lemma pass_mem_nil:
  "seg_tree_add_pass pick node ([], new, t) = Again (m, n, t') \<Longrightarrow> m = []"
  "seg_tree_add_pass pick node ([], new, t) = Leave (x, t') \<Longrightarrow> x = Inserted"
  by (auto simp: seg_tree_add_pass_def seg_tree_node_alloc_def Let_def
      split: prod.splits option.splits if_splits)

lemma loop_mem_nil:
  "fst st = [] \<Longrightarrow> fst (seg_tree_add_loop pick node st) = Inserted"
proof (induction pick node st rule: seg_tree_add_loop.induct)
  case (1 pick node st)
  obtain new t where st: "st = ([], new, t)" using "1.prems" by (cases st) auto
  show ?case
  proof (cases "seg_tree_add_pass pick node st")
    case (Leave r)
    with st pass_mem_nil(2)[of pick node new t "fst r" "snd r"] show ?thesis
      by (simp add: seg_tree_add_loop.simps)
  next
    case (Again st1)
    with st pass_mem_nil(1)[of pick node new t "fst st1" "fst (snd st1)" "snd (snd st1)"]
    have "fst st1 = []" by simp
    from "1.IH"[OF Again this] Again show ?thesis by (simp add: seg_tree_add_loop.simps)
  qed
qed

lemma seg_tree_add_succeeds: "fst (seg_tree_add pick [] t s e p) = Returns_0"
  using loop_mem_nil[of "([], (0, 0), t)" pick "\<lparr>start = s, end' = e, ptr = p\<rparr>"]
  by (auto simp: seg_tree_add_def seg_tree_node_alloc_def split: prod.splits loop_exit.splits)

lemma pass_max:
  "seg_tree_add_pass pick node (mem, new, t) = Again (m, n, t') \<Longrightarrow> max' t' = max' t"
  "seg_tree_add_pass pick node (mem, new, t) = Leave (x, t') \<Longrightarrow> max' t' = max' t"
  by (auto simp: seg_tree_add_pass_def Let_def split: prod.splits option.splits if_splits)

lemma loop_max: "max' (snd (seg_tree_add_loop pick node st)) = max' (snd (snd st))"
proof (induction pick node st rule: seg_tree_add_loop.induct)
  case (1 pick node st)
  obtain mem new t where st: "st = (mem, new, t)" by (cases st) auto
  show ?case
  proof (cases "seg_tree_add_pass pick node st")
    case (Leave r)
    with st pass_max(2)[of pick node mem new t "fst r" "snd r"] show ?thesis
      by (simp add: seg_tree_add_loop.simps)
  next
    case (Again st1)
    with st pass_max(1)[of pick node mem new t "fst st1" "fst (snd st1)" "snd (snd st1)"]
    have "max' (snd (snd st1)) = max' t" by simp
    with "1.IH"[OF Again] Again st show ?thesis by (simp add: seg_tree_add_loop.simps)
  qed
qed

lemma MAX_ul_ge: "a \<le> MAX_ul a b"
  by (auto simp: MAX_ul_def)

text \<open>
  C4 (as amended). A call of \<^verbatim>\<open>seg_tree_add\<close>, whatever its outcome, never lowers
  \<^verbatim>\<open>max\<close>; \<^verbatim>\<open>seg_tree_clear\<close> on a tree that has a segment sets \<^verbatim>\<open>count\<close> and
  \<^verbatim>\<open>max\<close> to zero.
\<close>

theorem max_monotone_clear_resets:
  "max' t \<le> max' (snd (seg_tree_add pick mem t s e p))
   \<and> (head t \<noteq> [] \<longrightarrow> count (seg_tree_clear pick' t) = 0 \<and> max' (seg_tree_clear pick' t) = 0)"
proof -
  have "max' t \<le> max' (snd (seg_tree_add pick mem t s e p))"
  proof (cases "seg_tree_node_alloc mem s e p")
    case (Pair a mem1)
    show ?thesis
    proof (cases a)
      case None
      with Pair show ?thesis by (simp add: seg_tree_add_def)
    next
      case (Some node)
      obtain x t1 where lp: "seg_tree_add_loop pick node (mem1, (0, 0), t) = (x, t1)"
        by (cases "seg_tree_add_loop pick node (mem1, (0, 0), t)")
      with loop_max[of pick node "(mem1, (0, 0), t)"] have "max' t1 = max' t" by simp
      with Pair Some lp show ?thesis by (cases x) (simp_all add: seg_tree_add_def MAX_ul_ge)
    qed
  qed
  moreover have "count (seg_tree_clear pick' t) = 0 \<and> max' (seg_tree_clear pick' t) = 0"
    if "head t \<noteq> []"
    using that by (simp add: seg_tree_clear_def split: prod.splits option.splits)
  ultimately show ?thesis by blast
qed

section \<open>Concrete runs\<close>

text \<open>The equations that evaluate a call on a given tree.\<close>

lemmas seg_eval =
  seg_tree_add_def seg_tree_init_def seg_tree_node_alloc_def seg_tree_add_loop.simps
  seg_tree_add_pass_def RB_INSERT_def RB_REMOVE_def compare_func_def
  get_non_overlapping_range_def MIN_ul_def MAX_ul_def Let_def pick_first_def

text \<open>
  C1 at a sequence with a clear and a failed add: after its first two calls the tree holds
  three segments.
\<close>

theorem non_overlap_invariant_witness:
  "call_ok (Add pick_first [] 0 99 1000) \<and> call_ok (Add pick_first [] 40 59 5000)
   \<and> call_ok (Clear pick_first) \<and> call_ok (Add pick_first [True, False] 5 9 100)
   \<and> run (take 2 [Add pick_first [] 0 99 1000, Add pick_first [] 40 59 5000,
         Clear pick_first, Add pick_first [True, False] 5 9 100]) seg_tree_init
       = \<lparr>head = [\<lparr>start = 0, end' = 39, ptr = 1000\<rparr>,
                  \<lparr>start = 40, end' = 59, ptr = 5000\<rparr>,
                  \<lparr>start = 60, end' = 99, ptr = 1060\<rparr>], count = 3, max' = 99\<rparr>
   \<and> non_overlap [\<lparr>start = 0, end' = 39, ptr = 1000\<rparr>,
                  \<lparr>start = 40, end' = 59, ptr = 5000\<rparr>,
                  \<lparr>start = 60, end' = 99, ptr = 1060\<rparr>]"
proof -
  let ?calls = "[Add pick_first [] 0 99 1000, Add pick_first [] 40 59 5000,
         Clear pick_first, Add pick_first [True, False] 5 9 100]"
  have ok: "\<forall>c\<in>set ?calls. call_ok c" by simp
  have r: "run (take 2 ?calls) seg_tree_init
       = \<lparr>head = [\<lparr>start = 0, end' = 39, ptr = 1000\<rparr>,
                  \<lparr>start = 40, end' = 59, ptr = 5000\<rparr>,
                  \<lparr>start = 60, end' = 99, ptr = 1060\<rparr>], count = 3, max' = 99\<rparr>"
    by (simp add: seg_eval)
  from non_overlap_invariant[OF ok, of 2] have "non_overlap (head (run (take 2 ?calls) seg_tree_init))" .
  then have "non_overlap [\<lparr>start = 0, end' = 39, ptr = 1000\<rparr>,
                  \<lparr>start = 40, end' = 59, ptr = 5000\<rparr>,
                  \<lparr>start = 60, end' = 99, ptr = 1060\<rparr>]"
    unfolding r by simp
  with r show ?thesis by simp
qed

text \<open>C2 at the middle overwrite of [0,99] by [40,59]: offset 50 inside, offset 70 outside.\<close>

theorem coverage_displacement_witness:
  "tree_ok (head \<lparr>head = [\<lparr>start = 0, end' = 99, ptr = 1000\<rparr>], count = 1, max' = 99\<rparr>)
   \<and> (40 :: u64) \<le> 59
   \<and> seg_tree_add pick_first [] \<lparr>head = [\<lparr>start = 0, end' = 99, ptr = 1000\<rparr>], count = 1, max' = 99\<rparr>
        40 59 5000
      = (Returns_0, \<lparr>head = [\<lparr>start = 0, end' = 39, ptr = 1000\<rparr>,
                               \<lparr>start = 40, end' = 59, ptr = 5000\<rparr>,
                               \<lparr>start = 60, end' = 99, ptr = 1060\<rparr>], count = 3, max' = 99\<rparr>)
   \<and> (\<exists>!a. a \<in> set [\<lparr>start = 0, end' = 39, ptr = 1000\<rparr>,
                               \<lparr>start = 40, end' = 59, ptr = 5000\<rparr>,
                               \<lparr>start = 60, end' = 99, ptr = 1060\<rparr>] \<and> covers a 50)
   \<and> maps_to [\<lparr>start = 0, end' = 39, ptr = 1000\<rparr>,
                               \<lparr>start = 40, end' = 59, ptr = 5000\<rparr>,
                               \<lparr>start = 60, end' = 99, ptr = 1060\<rparr>] 70
        = maps_to [\<lparr>start = 0, end' = 99, ptr = 1000\<rparr>] 70"
proof -
  let ?t = "\<lparr>head = [\<lparr>start = 0, end' = 99, ptr = 1000\<rparr>], count = 1, max' = 99\<rparr>"
  let ?t' = "\<lparr>head = [\<lparr>start = 0, end' = 39, ptr = 1000\<rparr>,
                               \<lparr>start = 40, end' = 59, ptr = 5000\<rparr>,
                               \<lparr>start = 60, end' = 99, ptr = 1060\<rparr>], count = 3, max' = (99::u64)\<rparr>"
  have h1: "tree_ok (head ?t)" by (simp add: tree_ok_def)
  have h2: "(40 :: u64) \<le> 59" by simp
  have h3: "seg_tree_add pick_first [] ?t 40 59 5000 = (Returns_0, ?t')"
    by (simp add: seg_eval)
  note th = coverage_displacement[OF h1 h2 h3]
  from th have "\<exists>!a. a \<in> set (head ?t') \<and> covers a 50" by simp
  moreover from th have "maps_to (head ?t') 70 y = maps_to (head ?t) 70 y" for y by simp
  ultimately show ?thesis using h1 h2 h3 by auto
qed

text \<open>
  C4 as stated fails: after the three adds [0,9], [10,19], [20,29] the count is 3, and the
  add of [0,29], which covers them all, leaves the count 1.
\<close>

theorem count_not_monotone:
  "run [Add pick_first [] 0 9 1000, Add pick_first [] 10 19 2000, Add pick_first [] 20 29 3000]
     seg_tree_init
   = \<lparr>head = [\<lparr>start = 0, end' = 9, ptr = 1000\<rparr>, \<lparr>start = 10, end' = 19, ptr = 2000\<rparr>,
              \<lparr>start = 20, end' = 29, ptr = 3000\<rparr>], count = 3, max' = 29\<rparr>
   \<and> seg_tree_add pick_first []
       \<lparr>head = [\<lparr>start = 0, end' = 9, ptr = 1000\<rparr>, \<lparr>start = 10, end' = 19, ptr = 2000\<rparr>,
                \<lparr>start = 20, end' = 29, ptr = 3000\<rparr>], count = 3, max' = 29\<rparr> 0 29 9000
     = (Returns_0, \<lparr>head = [\<lparr>start = 0, end' = 29, ptr = 9000\<rparr>], count = 1, max' = 29\<rparr>)"
  by (simp add: seg_eval)

text \<open>C4 as amended, at a tree with the one segment [0,9].\<close>

theorem max_monotone_clear_resets_witness:
  "head \<lparr>head = [\<lparr>start = 0, end' = 9, ptr = 1000\<rparr>], count = 1, max' = 9\<rparr> \<noteq> []
   \<and> max' \<lparr>head = [\<lparr>start = 0, end' = 9, ptr = 1000\<rparr>], count = 1, max' = 9\<rparr>
       \<le> max' (snd (seg_tree_add pick_first []
             \<lparr>head = [\<lparr>start = 0, end' = 9, ptr = 1000\<rparr>], count = 1, max' = 9\<rparr> 20 29 3000))
   \<and> count (seg_tree_clear pick_first
         \<lparr>head = [\<lparr>start = 0, end' = 9, ptr = 1000\<rparr>], count = 1, max' = 9\<rparr>) = 0
   \<and> max' (seg_tree_clear pick_first
         \<lparr>head = [\<lparr>start = 0, end' = 9, ptr = 1000\<rparr>], count = 1, max' = 9\<rparr>) = 0"
  using max_monotone_clear_resets[of
      "\<lparr>head = [\<lparr>start = 0, end' = 9, ptr = 1000\<rparr>], count = 1, max' = 9\<rparr>"
      pick_first "[]" 20 29 3000 pick_first]
  by simp

text \<open>
  C5 as stated fails: on the tree with [5,9] and [10,25], which two adds build, the add of
  [5,20] deletes [5,9] on its first pass and then fails to allocate the trimmed [21,25].
  It returns \<^verbatim>\<open>ENOMEM\<close> and leaves [10,25] alone in the tree: neither the tree before the
  call nor the tree the complete insert gives.
\<close>

theorem enomem_partial_insert:
  "run [Add pick_first [] 5 9 100, Add pick_first [] 10 25 200] seg_tree_init
   = \<lparr>head = [\<lparr>start = 5, end' = 9, ptr = 100\<rparr>, \<lparr>start = 10, end' = 25, ptr = 200\<rparr>],
      count = 2, max' = 25\<rparr>
   \<and> seg_tree_add pick_first [True, False]
       \<lparr>head = [\<lparr>start = 5, end' = 9, ptr = 100\<rparr>, \<lparr>start = 10, end' = 25, ptr = 200\<rparr>],
        count = 2, max' = 25\<rparr> 5 20 900
     = (Returns_ENOMEM, \<lparr>head = [\<lparr>start = 10, end' = 25, ptr = 200\<rparr>], count = 1, max' = 25\<rparr>)
   \<and> seg_tree_add pick_first []
       \<lparr>head = [\<lparr>start = 5, end' = 9, ptr = 100\<rparr>, \<lparr>start = 10, end' = 25, ptr = 200\<rparr>],
        count = 2, max' = 25\<rparr> 5 20 900
     = (Returns_0, \<lparr>head = [\<lparr>start = 5, end' = 20, ptr = 900\<rparr>,
                             \<lparr>start = 21, end' = 25, ptr = 211\<rparr>], count = 2, max' = 25\<rparr>)"
  by (simp add: seg_eval)

text \<open>
  The path the amended C5 leaves out: when the allocation of \<^verbatim>\<open>remaining\<close> fails (the
  third of the call), the \<^verbatim>\<open>NULL\<close> goes to \<^verbatim>\<open>RB_INSERT\<close>.
\<close>

lemma remaining_null_crashes:
  "seg_tree_add pick [True, True, False]
     \<lparr>head = [\<lparr>start = 0, end' = 99, ptr = 1000\<rparr>], count = 1, max' = 99\<rparr> 40 59 5000
   = (Segfault, \<lparr>head = [\<lparr>start = 0, end' = 39, ptr = 1000\<rparr>], count = 1, max' = 99\<rparr>)"
  by (simp add: seg_eval)

text \<open>
  C5 as amended, at an add of [5,20] to the tree with [0,9], [10,25] and [30,40] whose fourth
  allocation fails: [0,9] is split and its right part deleted, and three segments are left.
  Offset 22 lies outside [5,20].
\<close>

theorem enomem_keeps_invariant_witness:
  "tree_ok (head \<lparr>head = [\<lparr>start = 0, end' = 9, ptr = 100\<rparr>, \<lparr>start = 10, end' = 25, ptr = 200\<rparr>,
                          \<lparr>start = 30, end' = 40, ptr = 300\<rparr>], count = 3, max' = 40\<rparr>)
   \<and> (5 :: u64) \<le> 20
   \<and> seg_tree_add pick_first [True, True, True, False]
       \<lparr>head = [\<lparr>start = 0, end' = 9, ptr = 100\<rparr>, \<lparr>start = 10, end' = 25, ptr = 200\<rparr>,
                \<lparr>start = 30, end' = 40, ptr = 300\<rparr>], count = 3, max' = 40\<rparr> 5 20 900
     = (Returns_ENOMEM,
        \<lparr>head = [\<lparr>start = 0, end' = 4, ptr = 100\<rparr>, \<lparr>start = 10, end' = 25, ptr = 200\<rparr>,
                 \<lparr>start = 30, end' = 40, ptr = 300\<rparr>], count = 3, max' = 40\<rparr>)
   \<and> non_overlap [\<lparr>start = 0, end' = 4, ptr = 100\<rparr>, \<lparr>start = 10, end' = 25, ptr = 200\<rparr>,
                  \<lparr>start = 30, end' = 40, ptr = 300\<rparr>]
   \<and> maps_to [\<lparr>start = 0, end' = 4, ptr = 100\<rparr>, \<lparr>start = 10, end' = 25, ptr = 200\<rparr>,
              \<lparr>start = 30, end' = 40, ptr = 300\<rparr>] 22
       = maps_to [\<lparr>start = 0, end' = 9, ptr = 100\<rparr>, \<lparr>start = 10, end' = 25, ptr = 200\<rparr>,
                  \<lparr>start = 30, end' = 40, ptr = 300\<rparr>] 22"
proof -
  let ?t = "\<lparr>head = [\<lparr>start = 0, end' = 9, ptr = 100\<rparr>, \<lparr>start = 10, end' = 25, ptr = 200\<rparr>,
                \<lparr>start = 30, end' = 40, ptr = 300\<rparr>], count = 3, max' = (40::u64)\<rparr>"
  let ?t' = "\<lparr>head = [\<lparr>start = 0, end' = 4, ptr = 100\<rparr>, \<lparr>start = 10, end' = 25, ptr = 200\<rparr>,
                 \<lparr>start = 30, end' = 40, ptr = 300\<rparr>], count = 3, max' = (40::u64)\<rparr>"
  have h1: "tree_ok (head ?t)" by (simp add: tree_ok_def)
  have h2: "(5 :: u64) \<le> 20" by simp
  have h3: "seg_tree_add pick_first [True, True, True, False] ?t 5 20 900 = (Returns_ENOMEM, ?t')"
    by (simp add: seg_eval)
  note th = enomem_keeps_invariant[OF h1 h2 h3]
  from th have "non_overlap (head ?t')" by simp
  moreover from th have "maps_to (head ?t') 22 y = maps_to (head ?t) 22 y" for y by simp
  ultimately show ?thesis using h1 h2 h3 by auto
qed

section \<open>Searching the tree\<close>

text \<open>
  The interval of a segment meets the queried range \<open>[s, e]\<close>.
\<close>

definition intersects :: "seg_tree_node \<Rightarrow> u64 \<Rightarrow> u64 \<Rightarrow> bool" where
  "intersects a s e \<longleftrightarrow> {start a .. end' a} \<inter> {s .. e} \<noteq> {}"

lemma intersects_iff:
  "start a \<le> end' a \<Longrightarrow> s \<le> e \<Longrightarrow> intersects a s e \<longleftrightarrow> start a \<le> e \<and> s \<le> end' a"
  by (auto simp: intersects_def Int_atLeastAtMost)

lemma find_first_lowest:
  "tree_ok root \<Longrightarrow> List.find P root = Some r \<Longrightarrow>
     r \<in> set root \<and> P r \<and> (\<forall>b\<in>set root. P b \<longrightarrow> start r \<le> start b)"
proof (induction root)
  case Nil
  then show ?case by simp
next
  case (Cons x xs)
  show ?case
  proof (cases "P x")
    case True
    with Cons.prems have r: "r = x" by simp
    have "start x \<le> start b" if "b \<in> set xs" for b
    proof -
      from Cons.prems(1) that have "start x \<le> end' x" "end' x < start b"
        by (auto simp: tree_ok_Cons)
      then show ?thesis by simp
    qed
    with r True show ?thesis by auto
  next
    case False
    with Cons show ?thesis by (auto simp: tree_ok_Cons)
  qed
qed

lemma find_containing:
  "tree_ok root \<Longrightarrow> a \<in> set root \<Longrightarrow> start a \<le> s \<Longrightarrow> s \<le> end' a \<Longrightarrow>
     List.find (\<lambda>x. s \<le> end' x) root = Some a"
proof (induction root)
  case Nil
  then show ?case by simp
next
  case (Cons x xs)
  show ?case
  proof (cases "x = a")
    case True
    with Cons.prems show ?thesis by simp
  next
    case False
    with Cons.prems have a: "a \<in> set xs" by simp
    with Cons.prems(1) have "end' x < start a" by (auto simp: tree_ok_Cons)
    with Cons.prems(3) have "\<not> s \<le> end' x" by simp
    moreover have "List.find (\<lambda>x. s \<le> end' x) xs = Some a"
      using Cons.IH a Cons.prems by (simp add: tree_ok_Cons)
    ultimately show ?thesis by simp
  qed
qed

lemma RB_NFIND_point:
  assumes ok: "tree_ok root"
  shows "RB_NFIND pick root \<lparr>start = s, end' = s, ptr = p\<rparr> =
     List.find (\<lambda>x. s \<le> end' x) root"
proof -
  let ?probe = "\<lparr>start = s, end' = s, ptr = p\<rparr>"
  let ?cs = "filter (\<lambda>x. compare_func ?probe x = 0) root"
  show ?thesis
  proof (cases "?cs = []")
    case True
    then have none: "\<forall>x\<in>set root. compare_func ?probe x \<noteq> 0" by (simp add: filter_empty_conv)
    have "List.find (\<lambda>x. compare_func ?probe x < 0) root = List.find (\<lambda>x. s \<le> end' x) root"
    proof (rule find_cong[OF refl])
      fix x assume "x \<in> set root"
      with none have "compare_func ?probe x \<noteq> 0" by simp
      then show "(compare_func ?probe x < 0) = (s \<le> end' x)"
        by (auto simp: compare_func_def split: if_splits)
    qed
    with True show ?thesis by (simp add: RB_NFIND_def)
  next
    case False
    let ?a = "?cs ! (pick root ?probe mod length ?cs)"
    from False have "pick root ?probe mod length ?cs < length ?cs" by simp
    then have "?a \<in> set ?cs" by (rule nth_mem)
    then have a: "?a \<in> set root" "start ?a \<le> s" "s \<le> end' ?a"
      by (auto simp: compare_func_0)
    from find_containing[OF ok a] False show ?thesis by (simp add: RB_NFIND_def Let_def)
  qed
qed

lemma find_nolock_eq:
  assumes ok: "tree_ok (head t)" and al: "fst (seg_tree_node_alloc mem s s 0) \<noteq> None"
  shows "seg_tree_find_nolock pick mem t s e =
     (case List.find (\<lambda>x. s \<le> end' x) (head t) of
        None \<Rightarrow> None
      | Some r \<Rightarrow> if start r \<le> e then Some r else None)"
proof -
  from al obtain node mem1 where a: "seg_tree_node_alloc mem s s 0 = (Some node, mem1)"
    by (cases "seg_tree_node_alloc mem s s 0") auto
  from alloc_Some[OF a] have "node = \<lparr>start = s, end' = s, ptr = 0\<rparr>" .
  with a RB_NFIND_point[OF ok, of pick s 0] show ?thesis
    by (simp add: seg_tree_find_nolock_def)
qed

lemma find_nolock_lowest:
  assumes ok: "tree_ok (head t)" and wf: "s \<le> e"
    and al: "fst (seg_tree_node_alloc mem s s 0) \<noteq> None"
  shows "case seg_tree_find_nolock pick mem t s e of
           None \<Rightarrow> \<forall>b\<in>set (head t). \<not> intersects b s e
         | Some a \<Rightarrow> a \<in> set (head t) \<and> intersects a s e
             \<and> (\<forall>b\<in>set (head t). intersects b s e \<longrightarrow> start a \<le> start b)"
proof -
  have wfs: "start b \<le> end' b" if "b \<in> set (head t)" for b
    using ok that by (simp add: tree_ok_def)
  have I: "intersects b s e \<longleftrightarrow> start b \<le> e \<and> s \<le> end' b" if "b \<in> set (head t)" for b
    using intersects_iff[OF wfs[OF that] wf] .
  show ?thesis
  proof (cases "List.find (\<lambda>x. s \<le> end' x) (head t)")
    case None
    then have "\<forall>b\<in>set (head t). \<not> s \<le> end' b" by (simp add: find_None_iff)
    with I None show ?thesis by (simp add: find_nolock_eq[OF ok al])
  next
    case (Some r)
    from find_first_lowest[OF ok Some] have r: "r \<in> set (head t)" "s \<le> end' r"
      and low: "\<forall>b\<in>set (head t). s \<le> end' b \<longrightarrow> start r \<le> start b" by auto
    show ?thesis
    proof (cases "start r \<le> e")
      case True
      with r low I Some show ?thesis by (simp add: find_nolock_eq[OF ok al])
    next
      case False
      have "\<not> intersects b s e" if b: "b \<in> set (head t)" for b
      proof
        assume "intersects b s e"
        with I[OF b] have "start b \<le> e" "s \<le> end' b" by auto
        with low b have "start r \<le> e" by fastforce
        with False show False by simp
      qed
      with False Some show ?thesis by (simp add: find_nolock_eq[OF ok al])
    qed
  qed
qed

text \<open>The equations that evaluate a search on a given tree.\<close>

lemmas find_eval = seg_tree_find_nolock_def RB_NFIND_def

text \<open>
  C6. Find: on a well-formed tree and for a range \<open>[s, e]\<close> with \<open>s \<le> e\<close>, when the
  probe node is allocated, \<^verbatim>\<open>seg_tree_find_nolock\<close> returns a segment of the tree that
  meets \<open>[s, e]\<close> and starts lowest among those that do, and returns none exactly when
  no segment meets the range. After the middle overwrite (add [0,99,1000], then
  [40,59,5000]) \<open>find(50, 70)\<close> is the segment [40,59,5000] and \<open>find(200, 300)\<close> is
  none.
\<close>

theorem find_semantics:
  "(tree_ok (head t) \<and> s \<le> e \<and> fst (seg_tree_node_alloc mem s s 0) \<noteq> None \<longrightarrow>
      (case seg_tree_find_nolock pick mem t s e of
         None \<Rightarrow> \<forall>b\<in>set (head t). \<not> intersects b s e
       | Some a \<Rightarrow> a \<in> set (head t) \<and> intersects a s e
           \<and> (\<forall>b\<in>set (head t). intersects b s e \<longrightarrow> start a \<le> start b)))
   \<and> seg_tree_find_nolock pick []
        (snd (seg_tree_add pick1 [] (snd (seg_tree_add pick2 [] seg_tree_init 0 99 1000))
           40 59 5000)) 50 70
      = Some \<lparr>start = 40, end' = 59, ptr = 5000\<rparr>
   \<and> seg_tree_find_nolock pick []
        (snd (seg_tree_add pick1 [] (snd (seg_tree_add pick2 [] seg_tree_init 0 99 1000))
           40 59 5000)) 200 300
      = None"
proof -
  have "seg_tree_add pick1 [] (snd (seg_tree_add pick2 [] seg_tree_init 0 99 1000)) 40 59 5000 =
     (Returns_0,
      \<lparr>head = [\<lparr>start = 0, end' = 39, ptr = 1000\<rparr>,
               \<lparr>start = 40, end' = 59, ptr = 5000\<rparr>,
               \<lparr>start = 60, end' = 99, ptr = 1060\<rparr>],
       count = 3, max' = 99\<rparr>)"
    by (simp add: seg_eval)
  then have "seg_tree_find_nolock pick []
        (snd (seg_tree_add pick1 [] (snd (seg_tree_add pick2 [] seg_tree_init 0 99 1000))
           40 59 5000)) 50 70 = Some \<lparr>start = 40, end' = 59, ptr = 5000\<rparr>"
    and "seg_tree_find_nolock pick []
        (snd (seg_tree_add pick1 [] (snd (seg_tree_add pick2 [] seg_tree_init 0 99 1000))
           40 59 5000)) 200 300 = None"
    by (simp_all add: find_eval seg_tree_node_alloc_def compare_func_def)
  then show ?thesis using find_nolock_lowest[of t s e mem pick] by blast
qed

text \<open>C6 at the tree of the middle overwrite and the range [50,70].\<close>

theorem find_semantics_witness:
  "tree_ok (head \<lparr>head = [\<lparr>start = 0, end' = 39, ptr = 1000\<rparr>,
               \<lparr>start = 40, end' = 59, ptr = 5000\<rparr>,
               \<lparr>start = 60, end' = 99, ptr = 1060\<rparr>], count = 3, max' = 99\<rparr>)
   \<and> (50 :: u64) \<le> 70
   \<and> fst (seg_tree_node_alloc [] 50 50 0) \<noteq> None
   \<and> seg_tree_find_nolock pick_first [] \<lparr>head = [\<lparr>start = 0, end' = 39, ptr = 1000\<rparr>,
               \<lparr>start = 40, end' = 59, ptr = 5000\<rparr>,
               \<lparr>start = 60, end' = 99, ptr = 1060\<rparr>], count = 3, max' = 99\<rparr> 50 70
       = Some \<lparr>start = 40, end' = 59, ptr = 5000\<rparr>
   \<and> intersects \<lparr>start = 40, end' = 59, ptr = 5000\<rparr> 50 70"
proof -
  let ?t = "\<lparr>head = [\<lparr>start = 0, end' = 39, ptr = 1000\<rparr>,
               \<lparr>start = 40, end' = 59, ptr = 5000\<rparr>,
               \<lparr>start = 60, end' = 99, ptr = 1060\<rparr>], count = 3, max' = (99::u64)\<rparr>"
  have h1: "tree_ok (head ?t)" by (simp add: tree_ok_def)
  have h2: "(50 :: u64) \<le> 70" by simp
  have h3: "fst (seg_tree_node_alloc [] 50 50 0) \<noteq> None" by (simp add: seg_tree_node_alloc_def)
  have h4: "seg_tree_find_nolock pick_first [] ?t 50 70 = Some \<lparr>start = 40, end' = 59, ptr = 5000\<rparr>"
    by (simp add: find_eval seg_tree_node_alloc_def compare_func_def)
  from find_semantics[of ?t 50 70 "[]" pick_first] h1 h2 h3
  have "case seg_tree_find_nolock pick_first [] ?t 50 70 of
         None \<Rightarrow> \<forall>b\<in>set (head ?t). \<not> intersects b 50 70
       | Some a \<Rightarrow> a \<in> set (head ?t) \<and> intersects a 50 70
           \<and> (\<forall>b\<in>set (head ?t). intersects b 50 70 \<longrightarrow> start a \<le> start b)"
    by blast
  with h4 have "intersects \<lparr>start = 40, end' = 59, ptr = 5000\<rparr> 50 70" by simp
  with h1 h2 h3 h4 show ?thesis by blast
qed

text \<open>
  C9. When the allocation of the probe node fails, \<^verbatim>\<open>seg_tree_find_nolock\<close> returns
  none whatever the tree holds. On the tree of the middle overwrite the segment
  [40,59,5000] is stored and meets [50,70], and the search for [50,70] finds it when memory
  is there; when the allocation fails the search returns what the search for [200,300],
  which meets no segment, returns.
\<close>

theorem find_nomem_indistinguishable:
  "seg_tree_find_nolock pick (False # mem) t s e = None
   \<and> \<lparr>start = 40, end' = 59, ptr = 5000\<rparr>
       \<in> set (head (snd (seg_tree_add pick1 [] (snd (seg_tree_add pick2 [] seg_tree_init 0 99 1000))
           40 59 5000)))
   \<and> intersects \<lparr>start = 40, end' = 59, ptr = 5000\<rparr> 50 70
   \<and> seg_tree_find_nolock pick []
        (snd (seg_tree_add pick1 [] (snd (seg_tree_add pick2 [] seg_tree_init 0 99 1000))
           40 59 5000)) 50 70
      = Some \<lparr>start = 40, end' = 59, ptr = 5000\<rparr>
   \<and> seg_tree_find_nolock pick (False # mem)
        (snd (seg_tree_add pick1 [] (snd (seg_tree_add pick2 [] seg_tree_init 0 99 1000))
           40 59 5000)) 50 70
      = seg_tree_find_nolock pick []
        (snd (seg_tree_add pick1 [] (snd (seg_tree_add pick2 [] seg_tree_init 0 99 1000))
           40 59 5000)) 200 300"
proof -
  have nomem: "seg_tree_find_nolock pick (False # mem) t s e = None" for t s e
    by (simp add: seg_tree_find_nolock_def seg_tree_node_alloc_def)
  have S3: "seg_tree_add pick1 [] (snd (seg_tree_add pick2 [] seg_tree_init 0 99 1000)) 40 59 5000 =
     (Returns_0,
      \<lparr>head = [\<lparr>start = 0, end' = 39, ptr = 1000\<rparr>,
               \<lparr>start = 40, end' = 59, ptr = 5000\<rparr>,
               \<lparr>start = 60, end' = 99, ptr = 1060\<rparr>],
       count = 3, max' = 99\<rparr>)"
    by (simp add: seg_eval)
  have "intersects \<lparr>start = 40, end' = 59, ptr = 5000\<rparr> 50 70"
    by (simp add: intersects_def)
  moreover have "seg_tree_find_nolock pick []
        (snd (seg_tree_add pick1 [] (snd (seg_tree_add pick2 [] seg_tree_init 0 99 1000))
           40 59 5000)) 50 70 = Some \<lparr>start = 40, end' = 59, ptr = 5000\<rparr>"
    and "seg_tree_find_nolock pick []
        (snd (seg_tree_add pick1 [] (snd (seg_tree_add pick2 [] seg_tree_init 0 99 1000))
           40 59 5000)) 200 300 = None"
    unfolding S3 by (simp_all add: find_eval seg_tree_node_alloc_def compare_func_def)
  ultimately show ?thesis using nomem S3 by simp
qed

section \<open>Scenarios\<close>

text \<open>
  C3. Middle overwrite: from the empty tree, \<^verbatim>\<open>seg_tree_add(0, 99, 1000)\<close> and then
  \<^verbatim>\<open>seg_tree_add(40, 59, 5000)\<close> both return 0 and leave exactly the three segments
  [0,39] at 1000, [40,59] at 5000 and [60,99] at 1060, in ascending order, with
  \<^verbatim>\<open>count\<close> 3 (and \<^verbatim>\<open>max\<close> 99), whatever the shape of the tree.
\<close>

theorem middle_overwrite_split:
  "seg_tree_add pick [] (snd (seg_tree_add pick' [] seg_tree_init 0 99 1000)) 40 59 5000 =
     (Returns_0,
      \<lparr>head = [\<lparr>start = 0, end' = 39, ptr = 1000\<rparr>,
               \<lparr>start = 40, end' = 59, ptr = 5000\<rparr>,
               \<lparr>start = 60, end' = 99, ptr = 1060\<rparr>],
       count = 3, max' = 99\<rparr>)"
  by (simp add: seg_tree_add_def seg_tree_init_def seg_tree_node_alloc_def
      seg_tree_add_loop.simps seg_tree_add_pass_def RB_INSERT_def RB_REMOVE_def
      compare_func_def get_non_overlapping_range_def MIN_ul_def MAX_ul_def Let_def)

section \<open>Extent metadata service (server/src/unifycr\_metadata.c)\<close>

text \<open>
  The headers that declare the types of this file (\<^verbatim>\<open>unifycr_meta.h\<close>, \<^verbatim>\<open>mdhim.h\<close>,
  \<^verbatim>\<open>unifycr_const.h\<close>) are not among the sources. The records below have the fields the
  functions read and write, with the widths the specification gives (file ids of requests
  and index entries are \<^verbatim>\<open>int\<close>, offsets, lengths and addresses 64-bit unsigned).
  A C \<^verbatim>\<open>int\<close> is a 32-bit word; its conversion to \<^verbatim>\<open>unsigned long\<close> extends the sign.
\<close>

type_synonym c_int = "32 word"

text \<open>Modelled from the spec: \<^verbatim>\<open>unifycr_meta.h\<close> is missing. The key and the value of an
  extent ("Extent KV Key", "Extent KV Value"), an entry of the write index and of the
  file-attribute index of the superblock, and a read request of the request buffer.\<close>

record unifycr_key_t =
  fid :: u64
  offset :: u64

record unifycr_val_t =
  addr :: u64
  len :: u64
  delegator_id :: c_int
  app_id :: c_int
  rank :: c_int

record unifycr_index_t =
  idx_fid :: c_int
  file_pos :: u64
  mem_pos :: u64
  idx_length :: u64

record 'st unifycr_file_attr_t =
  gfid :: c_int
  file_attr :: 'st
  filename :: string

record 'st fattr_val_t =
  fname :: string
  fattr :: 'st

record shm_meta_t =
  src_fid :: c_int
  req_offset :: u64
  req_length :: u64

text \<open>\<^verbatim>\<open>send_msg_t\<close> of \<^verbatim>\<open>unifycr_global.h\<close>; its fields \<^verbatim>\<open>length\<close> and \<^verbatim>\<open>src_fid\<close> are
  \<open>msg_length\<close> and \<open>msg_src_fid\<close> here.\<close>

record send_msg_t =
  dest_app_id :: c_int
  dest_client_id :: c_int
  dest_offset :: u64
  dest_delegator_rank :: c_int
  msg_length :: u64
  src_delegator_rank :: c_int
  src_cli_id :: c_int
  src_app_id :: c_int
  msg_src_fid :: c_int
  src_offset :: u64
  src_thrd :: c_int
  src_dbg_rank :: c_int
  arrival_time :: c_int

text \<open>Modelled from the spec: \<^verbatim>\<open>mdhim.h\<close> is missing. A reply chain is the list of its
  replies in order, the \<^verbatim>\<open>NULL\<close> chain the empty list. A reply to a put carries an error
  code; a reply to a get carries an error code and \<^verbatim>\<open>num_keys\<close> keys with their values
  ("a reply chain of (keys, values, num_keys) batches").\<close>

record mdhim_brm_t =
  brm_error :: int

record 'v mdhim_bgetrm_t =
  bgrm_error :: int
  kvs :: "(unifycr_key_t \<times> 'v) list"

text \<open>Modelled from the spec: \<^verbatim>\<open>unifycr_const.h\<close> is missing. The two return codes of the
  functions modelled here; \<^verbatim>\<open>UNIFYCR_SUCCESS\<close> is the 0 that \<^verbatim>\<open>meta_process_fsync\<close> and
  \<^verbatim>\<open>meta_batch_get\<close> start from.\<close>

datatype unifycr_error_e = UNIFYCR_SUCCESS | UNIFYCR_ERROR_MDHIM

text \<open>
  A range get as it is handed to the key-value store: the index it goes to (its place in
  \<^verbatim>\<open>unifycr_indexes\<close>: 0 is the index of the extents, 1 that of the file attributes), the
  keys and their number. The store is a parameter of the functions below, which maps a
  request to the reply chain.
\<close>

datatype kv_request = MDHIM_RANGE_BGET nat "unifycr_key_t list" nat

text \<open>
  What C leaves undefined is a fault of the model: a write past the end of one of the
  fixed-size arrays (\<^verbatim>\<open>unifycr_keys\<close> and \<^verbatim>\<open>unifycr_key_lens\<close>, \<^verbatim>\<open>msg_meta\<close>,
  \<^verbatim>\<open>fattr_keys\<close>), and a write through the \<^verbatim>\<open>NULL\<close> that a failed \<^verbatim>\<open>calloc\<close> returns.
\<close>

datatype fault = Out_of_bounds | Null_deref

text \<open>
  The two probe keys of a request as the specification states them: \<open>(fid, off)\<close> and
  \<open>(fid, off + len - 1)\<close>.
\<close>

definition probe_keys :: "shm_meta_t \<Rightarrow> unifycr_key_t list" where
  "probe_keys req =
     [\<lparr>fid = scast (src_fid req), offset = req_offset req\<rparr>,
      \<lparr>fid = scast (src_fid req), offset = req_offset req + req_length req - 1\<rparr>]"

text \<open>
  The first loop of \<^verbatim>\<open>meta_batch_get\<close>, which writes the keys of request \<open>i\<close> at the
  indices \<open>2 * i\<close> and \<open>2 * i + 1\<close> of the global array.
\<close>

fun fill_probe_keys ::
  "shm_meta_t list \<Rightarrow> nat \<Rightarrow> unifycr_key_t list \<Rightarrow> fault + unifycr_key_t list" where
  "fill_probe_keys [] i keys = Inr keys"
| "fill_probe_keys (req # reqs) i keys =
     (let ndx = 2 * i
      in if ndx + 1 < length keys then
           fill_probe_keys reqs (i + 1)
             (keys[ndx := \<lparr>fid = scast (src_fid req), offset = req_offset req\<rparr>,
                   ndx + 1 := \<lparr>fid = scast (src_fid req),
                               offset = req_offset req + req_length req - 1\<rparr>])
         else Inl Out_of_bounds)"

text \<open>
  The body of the inner loop of \<^verbatim>\<open>meta_batch_get\<close>: the entry of \<^verbatim>\<open>msg_meta\<close> written
  for one returned key and value (the \<^verbatim>\<open>memset\<close> leaves \<^verbatim>\<open>arrival_time\<close> 0).
  \<open>store_msgs\<close> is the inner loop over the pairs of a batch, \<open>read_replies\<close> the
  \<^verbatim>\<open>while\<close> loop over the chain; the list \<open>msg_meta\<close> holds the \<^verbatim>\<open>tot_num\<close> entries
  written so far.
\<close>

definition send_msg_of ::
  "c_int \<Rightarrow> c_int \<Rightarrow> c_int \<Rightarrow> c_int \<Rightarrow> c_int \<Rightarrow> unifycr_key_t \<times> unifycr_val_t \<Rightarrow> send_msg_t" where
  "send_msg_of glb_rank app_id' client_id thrd_id dbg_rank kv =
     (case kv of (tmp_key, tmp_val) \<Rightarrow>
        \<lparr>dest_app_id = app_id tmp_val,
         dest_client_id = rank tmp_val,
         dest_offset = addr tmp_val,
         dest_delegator_rank = delegator_id tmp_val,
         msg_length = len tmp_val,
         src_delegator_rank = glb_rank,
         src_cli_id = client_id,
         src_app_id = app_id',
         msg_src_fid = ucast (fid tmp_key),
         src_offset = offset tmp_key,
         src_thrd = thrd_id,
         src_dbg_rank = dbg_rank,
         arrival_time = 0\<rparr>)"

fun store_msgs ::
  "nat \<Rightarrow> (unifycr_key_t \<times> unifycr_val_t \<Rightarrow> send_msg_t) \<Rightarrow> (unifycr_key_t \<times> unifycr_val_t) list
     \<Rightarrow> send_msg_t list \<Rightarrow> fault + send_msg_t list" where
  "store_msgs cap mk [] msg_meta = Inr msg_meta"
| "store_msgs cap mk (kv # rest) msg_meta =
     (if length msg_meta < cap then store_msgs cap mk rest (msg_meta @ [mk kv])
      else Inl Out_of_bounds)"

fun read_replies ::
  "nat \<Rightarrow> (unifycr_key_t \<times> unifycr_val_t \<Rightarrow> send_msg_t) \<Rightarrow> unifycr_val_t mdhim_bgetrm_t list
     \<Rightarrow> unifycr_error_e \<Rightarrow> send_msg_t list \<Rightarrow> fault + unifycr_error_e \<times> send_msg_t list" where
  "read_replies cap mk [] rc msg_meta = Inr (rc, msg_meta)"
| "read_replies cap mk (bgrmp # next) rc msg_meta =
     (let rc' = (if bgrm_error bgrmp < 0 then UNIFYCR_ERROR_MDHIM else rc)
      in case store_msgs cap mk (kvs bgrmp) msg_meta of
           Inl f \<Rightarrow> Inl f
         | Inr msg_meta' \<Rightarrow> read_replies cap mk next rc' msg_meta')"

text \<open>
  \<^verbatim>\<open>meta_batch_get\<close>. The result is the list of the requests made to the store, and the
  return code with the entries of \<^verbatim>\<open>del_req_set\<close> (or the fault).
\<close>

definition meta_batch_get ::
  "nat \<Rightarrow> (kv_request \<Rightarrow> unifycr_val_t mdhim_bgetrm_t list) \<Rightarrow> c_int \<Rightarrow> unifycr_key_t list
     \<Rightarrow> c_int \<Rightarrow> c_int \<Rightarrow> c_int \<Rightarrow> c_int \<Rightarrow> shm_meta_t list
     \<Rightarrow> kv_request list \<times> (fault + unifycr_error_e \<times> send_msg_t list)" where
  "meta_batch_get MAX_META_PER_SEND mdhimBGet glb_rank unifycr_keys
       app_id' client_id thrd_id dbg_rank meta_reqs =
     (let req_cnt = length meta_reqs
      in case fill_probe_keys meta_reqs 0 unifycr_keys of
           Inl f \<Rightarrow> ([], Inl f)
         | Inr keys \<Rightarrow>
             let request = MDHIM_RANGE_BGET 0 (take (2 * req_cnt) keys) (2 * req_cnt);
                 bgrm = mdhimBGet request
             in ([request],
                 read_replies MAX_META_PER_SEND
                   (send_msg_of glb_rank app_id' client_id thrd_id dbg_rank)
                   bgrm UNIFYCR_SUCCESS []))"

text \<open>
  The check of a reply chain in \<^verbatim>\<open>meta_process_fsync\<close>: the test
  \<^verbatim>\<open>if (!brmp || brmp->error)\<close> on the head of the chain, then the \<^verbatim>\<open>while\<close> loop
  (\<open>brm_scan\<close>) that stops at the first reply with a negative error code.
\<close>

fun brm_scan :: "mdhim_brm_t list \<Rightarrow> unifycr_error_e \<Rightarrow> unifycr_error_e" where
  "brm_scan [] ret = ret"
| "brm_scan (brmp # next) ret =
     (if brm_error brmp < 0 then UNIFYCR_ERROR_MDHIM else brm_scan next ret)"

definition brm_check :: "mdhim_brm_t list \<Rightarrow> unifycr_error_e \<Rightarrow> unifycr_error_e" where
  "brm_check brm ret =
     brm_scan brm
       (if (case brm of [] \<Rightarrow> True | brmp # _ \<Rightarrow> brm_error brmp \<noteq> 0)
        then UNIFYCR_ERROR_MDHIM else ret)"

text \<open>
  \<^verbatim>\<open>meta_process_fsync\<close>, from the entries of the two index regions of the superblock.
  \<open>app_id'\<close> and \<open>client_side_id\<close> are what the lookups by \<^verbatim>\<open>sock_id\<close> give.
\<close>

definition meta_process_fsync ::
  "nat \<Rightarrow> nat \<Rightarrow> ((unifycr_key_t \<times> unifycr_val_t) list \<Rightarrow> mdhim_brm_t list)
     \<Rightarrow> ((c_int \<times> 'st fattr_val_t) list \<Rightarrow> mdhim_brm_t list)
     \<Rightarrow> c_int \<Rightarrow> c_int \<Rightarrow> c_int \<Rightarrow> unifycr_index_t list \<Rightarrow> 'st unifycr_file_attr_t list
     \<Rightarrow> fault + unifycr_error_e" where
  "meta_process_fsync MAX_META_PER_SEND MAX_FILE_CNT_PER_NODE mdhimBPut_index mdhimBPut_attr
       glb_rank app_id' client_side_id meta_payload attr_payload =
     (if length meta_payload > MAX_META_PER_SEND then Inl Out_of_bounds
      else
        let brm = mdhimBPut_index
              (map (\<lambda>e. (\<lparr>fid = scast (idx_fid e), offset = file_pos e\<rparr>,
                         \<lparr>addr = mem_pos e, len = idx_length e, delegator_id = glb_rank,
                          app_id = app_id', rank = client_side_id\<rparr>)) meta_payload);
            ret = brm_check brm UNIFYCR_SUCCESS
        in if length attr_payload > MAX_FILE_CNT_PER_NODE then Inl Out_of_bounds
           else
             let brm = mdhimBPut_attr
                   (map (\<lambda>a. (gfid a, \<lparr>fname = filename a, fattr = file_attr a\<rparr>)) attr_payload)
             in Inr (brm_check brm ret))"

text \<open>
  Modelled from the spec: \<^verbatim>\<open>unifycr_meta.h\<close> is missing. \<^verbatim>\<open>unifycr_get_file_extents\<close>
  reads a field \<^verbatim>\<open>app_rank_id\<close> of the value where the other functions read
  \<^verbatim>\<open>app_id\<close> and \<^verbatim>\<open>rank\<close>; it is modelled on the fields it reads (\<^verbatim>\<open>addr\<close>,
  \<^verbatim>\<open>len\<close>, \<^verbatim>\<open>app_rank_id\<close>, \<^verbatim>\<open>delegator_id\<close>, named \<open>ev_\<close> here).
\<close>

record unifycr_extent_val_t =
  ev_addr :: u64
  ev_len :: u64
  ev_app_rank_id :: c_int
  ev_delegator_id :: c_int

record unifycr_keyval_t =
  key :: unifycr_key_t
  val :: unifycr_extent_val_t

text \<open>\<^verbatim>\<open>calloc\<close>, with the outcomes of the coming calls as for the segment tree.\<close>

definition calloc :: "bool list \<Rightarrow> bool \<times> bool list" where
  "calloc mem = (case mem of [] \<Rightarrow> (True, []) | ok # mem' \<Rightarrow> (ok, mem'))"

text \<open>
  The entry of \<^verbatim>\<open>*keyval\<close> written for one pair. The last assignment of the loop body
  stores \<^verbatim>\<open>tmp_val->len\<close> into \<^verbatim>\<open>val.addr\<close>, over the address stored first;
  \<^verbatim>\<open>val.len\<close> keeps the 0 of \<^verbatim>\<open>calloc\<close>.
\<close>

definition keyval_of :: "unifycr_key_t \<times> unifycr_extent_val_t \<Rightarrow> unifycr_keyval_t" where
  "keyval_of kv =
     (case kv of (tmp_key, tmp_val) \<Rightarrow>
        \<lparr>key = \<lparr>fid = fid tmp_key, offset = offset tmp_key\<rparr>,
         val = \<lparr>ev_addr = ev_len tmp_val, ev_len = 0,
                ev_app_rank_id = ev_app_rank_id tmp_val,
                ev_delegator_id = ev_delegator_id tmp_val\<rparr>\<rparr>)"

text \<open>
  The \<^verbatim>\<open>while\<close> loop of \<^verbatim>\<open>unifycr_get_file_extents\<close>: every batch allocates a new
  array for \<^verbatim>\<open>*keyval\<close> and adds one to \<^verbatim>\<open>tot_num\<close>. The result of \<^verbatim>\<open>calloc\<close> is
  not tested, so the first write goes through \<^verbatim>\<open>NULL\<close> when it failed.
\<close>

fun get_file_extents_loop ::
  "bool list \<Rightarrow> unifycr_extent_val_t mdhim_bgetrm_t list \<Rightarrow> unifycr_error_e
     \<Rightarrow> unifycr_keyval_t list \<Rightarrow> nat \<Rightarrow> fault + unifycr_error_e \<times> unifycr_keyval_t list \<times> nat" where
  "get_file_extents_loop mem [] rc keyval tot_num = Inr (rc, keyval, tot_num)"
| "get_file_extents_loop mem (bgrmp # next) rc keyval tot_num =
     (let rc' = (if bgrm_error bgrmp < 0 then UNIFYCR_ERROR_MDHIM else rc)
      in case calloc mem of
           (ok, mem') \<Rightarrow>
             if \<not> ok \<and> kvs bgrmp \<noteq> [] then Inl Null_deref
             else get_file_extents_loop mem' next rc'
                    (if ok then map keyval_of (kvs bgrmp) else []) (tot_num + 1))"

definition unifycr_get_file_extents ::
  "(kv_request \<Rightarrow> unifycr_extent_val_t mdhim_bgetrm_t list) \<Rightarrow> bool list \<Rightarrow> nat
     \<Rightarrow> unifycr_key_t list \<Rightarrow> unifycr_keyval_t list
     \<Rightarrow> fault + unifycr_error_e \<times> nat \<times> unifycr_keyval_t list" where
  "unifycr_get_file_extents mdhimBGet mem num_keys keys keyval =
     (case get_file_extents_loop mem (mdhimBGet (MDHIM_RANGE_BGET 0 keys num_keys))
             UNIFYCR_SUCCESS keyval 0 of
        Inl f \<Rightarrow> Inl f
      | Inr (rc, keyval', tot_num) \<Rightarrow> Inr (rc, tot_num, keyval'))"

text \<open>
  A reply chain that \<^verbatim>\<open>meta_process_fsync\<close> accepts: it is there, its first reply has
  error code 0, and no reply has a negative error code.
\<close>

definition chain_ok :: "mdhim_brm_t list \<Rightarrow> bool" where
  "chain_ok brm \<longleftrightarrow>
     brm \<noteq> [] \<and> brm_error (hd brm) = 0 \<and> \<not> list_ex (\<lambda>b. brm_error b < 0) brm"

text \<open>Stores for the concrete runs: they answer every request with the given replies.\<close>

definition kv_replies :: "int list \<Rightarrow> 'a \<Rightarrow> mdhim_brm_t list" where
  "kv_replies errors request = map (\<lambda>e. \<lparr>brm_error = e\<rparr>) errors"

definition kv_batches :: "'v mdhim_bgetrm_t list \<Rightarrow> kv_request \<Rightarrow> 'v mdhim_bgetrm_t list" where
  "kv_batches bs request = bs"

lemma take_update2:
  "n + 1 < length xs \<Longrightarrow> take (n + 2) (xs[n := a, n + 1 := b]) = take n xs @ [a, b]"
  by (simp add: take_Suc_conv_app_nth numeral_2_eq_2)

lemma fill_probe_keys_room:
  "2 * (i + length reqs) \<le> length keys \<Longrightarrow>
     \<exists>keys'. fill_probe_keys reqs i keys = Inr keys' \<and> length keys' = length keys
       \<and> take (2 * (i + length reqs)) keys' = take (2 * i) keys @ concat (map probe_keys reqs)"
proof (induction reqs arbitrary: i keys)
  case Nil
  then show ?case by simp
next
  case (Cons req reqs)
  let ?a = "\<lparr>fid = scast (src_fid req), offset = req_offset req\<rparr>"
  let ?b = "\<lparr>fid = scast (src_fid req), offset = req_offset req + req_length req - 1\<rparr>"
  let ?keys1 = "keys[2 * i := ?a, 2 * i + 1 := ?b]"
  from Cons.prems have room: "2 * i + 1 < length keys" by simp
  from Cons.prems have "2 * (i + 1 + length reqs) \<le> length ?keys1" by simp
  from Cons.IH[OF this] obtain keys' where k: "fill_probe_keys reqs (i + 1) ?keys1 = Inr keys'"
    "length keys' = length ?keys1"
    "take (2 * (i + 1 + length reqs)) keys' = take (2 * (i + 1)) ?keys1 @ concat (map probe_keys reqs)"
    by blast
  have "take (2 * (i + 1)) ?keys1 = take (2 * i) keys @ [?a, ?b]"
    using take_update2[OF room, of ?a ?b] by simp
  with k room show ?case by (simp add: probe_keys_def[of req] Let_def)
qed

text \<open>
  C7. Probe keys: for a batch of \<open>req_cnt\<close> requests that the key array has room for
  (\<open>2 * req_cnt\<close> entries), \<^verbatim>\<open>meta_batch_get\<close> makes exactly one request to the store, a
  range get of \<open>2 * req_cnt\<close> keys on the index of the extents, and the keys are, request by request in order, the two
  probe keys \<open>(fid, off)\<close> and \<open>(fid, off + len - 1)\<close>.
\<close>

theorem probe_keys_issued:
  assumes "2 * length meta_reqs \<le> length unifycr_keys"
  shows "fst (meta_batch_get MAX_META_PER_SEND mdhimBGet glb_rank unifycr_keys
               app_id' client_id thrd_id dbg_rank meta_reqs)
         = [MDHIM_RANGE_BGET 0 (concat (map probe_keys meta_reqs)) (2 * length meta_reqs)]
       \<and> length (concat (map probe_keys meta_reqs)) = 2 * length meta_reqs"
proof -
  from fill_probe_keys_room[of 0 meta_reqs unifycr_keys] assms
  obtain keys' where "fill_probe_keys meta_reqs 0 unifycr_keys = Inr keys'"
    "take (2 * length meta_reqs) keys' = concat (map probe_keys meta_reqs)" by auto
  then have "fst (meta_batch_get MAX_META_PER_SEND mdhimBGet glb_rank unifycr_keys
               app_id' client_id thrd_id dbg_rank meta_reqs)
         = [MDHIM_RANGE_BGET 0 (concat (map probe_keys meta_reqs)) (2 * length meta_reqs)]"
    by (simp add: meta_batch_get_def Let_def)
  moreover have "length (concat (map probe_keys meta_reqs)) = 2 * length meta_reqs"
    by (induction meta_reqs) (simp_all add: probe_keys_def)
  ultimately show ?thesis by simp
qed

lemma brm_scan_eq:
  "brm_scan brm ret = (if list_ex (\<lambda>b. brm_error b < 0) brm then UNIFYCR_ERROR_MDHIM else ret)"
  by (induction brm) auto

lemma brm_check_eq:
  "brm_check brm ret =
     (if chain_ok brm \<and> ret = UNIFYCR_SUCCESS then UNIFYCR_SUCCESS else UNIFYCR_ERROR_MDHIM)"
  by (cases brm; cases ret) (auto simp: brm_check_def brm_scan_eq chain_ok_def)

text \<open>
  What \<^verbatim>\<open>meta_process_fsync\<close> returns for index regions that fit the key arrays, in
  terms of the two reply chains.
\<close>

lemma fsync_status_chains:
  assumes "length meta_payload \<le> MAX_META_PER_SEND"
    and "length attr_payload \<le> MAX_FILE_CNT_PER_NODE"
  shows "meta_process_fsync MAX_META_PER_SEND MAX_FILE_CNT_PER_NODE mdhimBPut_index mdhimBPut_attr
           glb_rank app_id' client_side_id meta_payload attr_payload
         = Inr (if chain_ok (mdhimBPut_index
                     (map (\<lambda>e. (\<lparr>fid = scast (idx_fid e), offset = file_pos e\<rparr>,
                         \<lparr>addr = mem_pos e, len = idx_length e, delegator_id = glb_rank,
                          app_id = app_id', rank = client_side_id\<rparr>)) meta_payload))
                  \<and> chain_ok (mdhimBPut_attr
                     (map (\<lambda>a. (gfid a, \<lparr>fname = filename a, fattr = file_attr a\<rparr>)) attr_payload))
                then UNIFYCR_SUCCESS else UNIFYCR_ERROR_MDHIM)"
  using assms by (simp add: meta_process_fsync_def Let_def brm_check_eq)

lemma chain_ok_nonpos:
  assumes "\<forall>b\<in>set brm. brm_error b \<le> 0"
  shows "chain_ok brm \<longleftrightarrow> brm \<noteq> [] \<and> (\<forall>b\<in>set brm. brm_error b = 0)"
proof (cases brm)
  case Nil
  then show ?thesis by (simp add: chain_ok_def)
next
  case (Cons x xs)
  have "\<not> brm_error b < 0 \<longleftrightarrow> brm_error b = 0" if "b \<in> set brm" for b
    using assms that by fastforce
  then have "\<not> list_ex (\<lambda>b. brm_error b < 0) brm \<longleftrightarrow> (\<forall>b\<in>set brm. brm_error b = 0)"
    by (auto simp: list_ex_iff)
  with Cons show ?thesis by (auto simp: chain_ok_def)
qed

text \<open>
  C8. Fsync error contract: the store reports an error of a batch by a negative code and
  success by 0. For index regions that fit the key arrays and reply chains with such codes,
  \<^verbatim>\<open>meta_process_fsync\<close> returns success if and only if both reply chains are there and
  every reply of both reports no error (code 0); a chain that is missing, or a reply with a
  negative code in either chain, makes it return the one error \<^verbatim>\<open>UNIFYCR_ERROR_MDHIM\<close>.
\<close>

theorem fsync_error_contract:
  assumes "length meta_payload \<le> MAX_META_PER_SEND"
    and "length attr_payload \<le> MAX_FILE_CNT_PER_NODE"
    and ext: "ext = mdhimBPut_index
                (map (\<lambda>e. (\<lparr>fid = scast (idx_fid e), offset = file_pos e\<rparr>,
                    \<lparr>addr = mem_pos e, len = idx_length e, delegator_id = glb_rank,
                     app_id = app_id', rank = client_side_id\<rparr>)) meta_payload)"
    and att: "att = mdhimBPut_attr
                (map (\<lambda>a. (gfid a, \<lparr>fname = filename a, fattr = file_attr a\<rparr>)) attr_payload)"
    and codes: "\<forall>b\<in>set ext \<union> set att. brm_error b \<le> 0"
  shows "meta_process_fsync MAX_META_PER_SEND MAX_FILE_CNT_PER_NODE mdhimBPut_index mdhimBPut_attr
           glb_rank app_id' client_side_id meta_payload attr_payload
         = Inr (if ext \<noteq> [] \<and> att \<noteq> [] \<and> (\<forall>b\<in>set ext \<union> set att. brm_error b = 0)
                then UNIFYCR_SUCCESS else UNIFYCR_ERROR_MDHIM)
       \<and> (ext = [] \<or> att = [] \<or> (\<exists>b\<in>set ext \<union> set att. brm_error b < 0) \<longrightarrow>
            meta_process_fsync MAX_META_PER_SEND MAX_FILE_CNT_PER_NODE mdhimBPut_index
              mdhimBPut_attr glb_rank app_id' client_side_id meta_payload attr_payload
            = Inr UNIFYCR_ERROR_MDHIM)"
proof -
  from codes have c1: "\<forall>b\<in>set ext. brm_error b \<le> 0" and c2: "\<forall>b\<in>set att. brm_error b \<le> 0"
    by auto
  have ok: "chain_ok ext \<and> chain_ok att \<longleftrightarrow>
      ext \<noteq> [] \<and> att \<noteq> [] \<and> (\<forall>b\<in>set ext \<union> set att. brm_error b = 0)"
    unfolding chain_ok_nonpos[OF c1] chain_ok_nonpos[OF c2] by auto
  have res: "meta_process_fsync MAX_META_PER_SEND MAX_FILE_CNT_PER_NODE mdhimBPut_index
      mdhimBPut_attr glb_rank app_id' client_side_id meta_payload attr_payload
      = Inr (if chain_ok ext \<and> chain_ok att then UNIFYCR_SUCCESS else UNIFYCR_ERROR_MDHIM)"
    unfolding ext att using fsync_status_chains[OF assms(1,2)] .
  have 1: "meta_process_fsync MAX_META_PER_SEND MAX_FILE_CNT_PER_NODE mdhimBPut_index
      mdhimBPut_attr glb_rank app_id' client_side_id meta_payload attr_payload
      = Inr (if ext \<noteq> [] \<and> att \<noteq> [] \<and> (\<forall>b\<in>set ext \<union> set att. brm_error b = 0)
                then UNIFYCR_SUCCESS else UNIFYCR_ERROR_MDHIM)"
    unfolding res ok ..
  have 2: "meta_process_fsync MAX_META_PER_SEND MAX_FILE_CNT_PER_NODE mdhimBPut_index
      mdhimBPut_attr glb_rank app_id' client_side_id meta_payload attr_payload
      = Inr UNIFYCR_ERROR_MDHIM"
    if "ext = [] \<or> att = [] \<or> (\<exists>b\<in>set ext \<union> set att. brm_error b < 0)"
  proof -
    from that have "\<not> (ext \<noteq> [] \<and> att \<noteq> [] \<and> (\<forall>b\<in>set ext \<union> set att. brm_error b = 0))"
      by fastforce
    with 1 show ?thesis by simp
  qed
  from 1 2 show ?thesis by blast
qed

text \<open>
  C8 at one index entry and one file attribute: a negative code in the second reply of the
  attribute put, and two chains without error.
\<close>

theorem fsync_error_contract_witness:
  "length [\<lparr>idx_fid = 1, file_pos = 0, mem_pos = 0, idx_length = 10\<rparr>] \<le> (8::nat)
   \<and> length [\<lparr>gfid = 1, file_attr = (), filename = ''f''\<rparr>] \<le> (8::nat)
   \<and> brm_error \<lparr>brm_error = 0\<rparr> \<le> 0 \<and> brm_error \<lparr>brm_error = - 1\<rparr> \<le> 0
   \<and> meta_process_fsync 8 8 (kv_replies [0, 0]) (kv_replies [0, - 1]) 0 0 0
       [\<lparr>idx_fid = 1, file_pos = 0, mem_pos = 0, idx_length = 10\<rparr>]
       [\<lparr>gfid = 1, file_attr = (), filename = ''f''\<rparr>]
     = Inr UNIFYCR_ERROR_MDHIM
   \<and> meta_process_fsync 8 8 (kv_replies [0, 0]) (kv_replies [0]) 0 0 0
       [\<lparr>idx_fid = 1, file_pos = 0, mem_pos = 0, idx_length = 10\<rparr>]
       [\<lparr>gfid = 1, file_attr = (), filename = ''f''\<rparr>]
     = Inr UNIFYCR_SUCCESS"
proof -
  let ?mp = "[\<lparr>idx_fid = 1, file_pos = 0, mem_pos = 0, idx_length = 10\<rparr>]"
  let ?ap = "[\<lparr>gfid = 1, file_attr = (), filename = ''f''\<rparr>]"
  let ?ok2 = "[\<lparr>brm_error = 0\<rparr>, \<lparr>brm_error = 0\<rparr>]"
  let ?bad = "[\<lparr>brm_error = 0\<rparr>, \<lparr>brm_error = - 1\<rparr>]"
  let ?ok1 = "[\<lparr>brm_error = 0\<rparr>]"
  have h1: "length ?mp \<le> (8::nat)" and h2: "length ?ap \<le> (8::nat)" by simp_all
  have e: "?ok2 = kv_replies [0, 0]
      (map (\<lambda>e. (\<lparr>fid = scast (idx_fid e), offset = file_pos e\<rparr>,
                    \<lparr>addr = mem_pos e, len = idx_length e, delegator_id = 0,
                     app_id = 0, rank = 0\<rparr>)) ?mp)"
    by (simp add: kv_replies_def)
  have a1: "?bad = kv_replies [0, - 1]
      (map (\<lambda>a. (gfid a, \<lparr>fname = filename a, fattr = file_attr a\<rparr>)) ?ap)"
    by (simp add: kv_replies_def)
  have a2: "?ok1 = kv_replies [0]
      (map (\<lambda>a. (gfid a, \<lparr>fname = filename a, fattr = file_attr a\<rparr>)) ?ap)"
    by (simp add: kv_replies_def)
  have c1: "\<forall>b\<in>set ?ok2 \<union> set ?bad. brm_error b \<le> 0" by simp
  have c2: "\<forall>b\<in>set ?ok2 \<union> set ?ok1. brm_error b \<le> 0" by simp
  from fsync_error_contract[where mdhimBPut_index = "kv_replies [0, 0]"
      and mdhimBPut_attr = "kv_replies [0, - 1]" and glb_rank = 0 and app_id' = 0
      and client_side_id = 0, OF h1 h2 e a1 c1]
  have r1: "meta_process_fsync 8 8 (kv_replies [0, 0]) (kv_replies [0, - 1]) 0 0 0 ?mp ?ap
      = Inr UNIFYCR_ERROR_MDHIM" by simp
  from fsync_error_contract[where mdhimBPut_index = "kv_replies [0, 0]"
      and mdhimBPut_attr = "kv_replies [0]" and glb_rank = 0 and app_id' = 0
      and client_side_id = 0, OF h1 h2 e a2 c2]
  have r2: "meta_process_fsync 8 8 (kv_replies [0, 0]) (kv_replies [0]) 0 0 0 ?mp ?ap
      = Inr UNIFYCR_SUCCESS" by simp
  from h1 h2 r1 r2 show ?thesis by simp
qed

text \<open>
  A code above 0 is not one the store returns. On such a code the test of the head of the
  chain (\<^verbatim>\<open>brmp->error\<close>) and the test of the loop (\<^verbatim>\<open>brmp->error < 0\<close>) differ.
\<close>

lemma fsync_head_and_loop_tests_differ:
  "meta_process_fsync 8 8 (kv_replies [0, 1]) (kv_replies [0]) 0 0 0
     [\<lparr>idx_fid = 1, file_pos = 0, mem_pos = 0, idx_length = 10\<rparr>]
     [\<lparr>gfid = 1, file_attr = (), filename = ''f''\<rparr>]
   = Inr UNIFYCR_SUCCESS
   \<and> meta_process_fsync 8 8 (kv_replies [1]) (kv_replies [0]) 0 0 0
     [\<lparr>idx_fid = 1, file_pos = 0, mem_pos = 0, idx_length = 10\<rparr>]
     [\<lparr>gfid = 1, file_attr = (), filename = ''f''\<rparr>]
   = Inr UNIFYCR_ERROR_MDHIM"
  by (simp add: meta_process_fsync_def Let_def brm_check_def kv_replies_def)

text \<open>C7 at two requests, [100, 149] and [0, 9] of file 1.\<close>

theorem probe_keys_issued_witness:
  "2 * length [\<lparr>src_fid = 1, req_offset = 100, req_length = 50\<rparr>,
               \<lparr>src_fid = 1, req_offset = 0, req_length = 10\<rparr>]
     \<le> length (replicate 8 \<lparr>fid = 0, offset = 0\<rparr>)
   \<and> fst (meta_batch_get 8 (kv_batches []) 0 (replicate 8 \<lparr>fid = 0, offset = 0\<rparr>) 0 0 0 0
            [\<lparr>src_fid = 1, req_offset = 100, req_length = 50\<rparr>,
             \<lparr>src_fid = 1, req_offset = 0, req_length = 10\<rparr>])
     = [MDHIM_RANGE_BGET 0 [\<lparr>fid = 1, offset = 100\<rparr>, \<lparr>fid = 1, offset = 149\<rparr>,
                            \<lparr>fid = 1, offset = 0\<rparr>, \<lparr>fid = 1, offset = 9\<rparr>] 4]"
  using probe_keys_issued[of "[\<lparr>src_fid = 1, req_offset = 100, req_length = 50\<rparr>,
             \<lparr>src_fid = 1, req_offset = 0, req_length = 10\<rparr>]"
      "replicate 8 \<lparr>fid = 0, offset = 0\<rparr>" 8 "kv_batches []" 0 0 0 0 0]
  by (simp add: probe_keys_def)

lemma get_file_extents_loop_nil:
  "get_file_extents_loop [] chain rc keyval tot_num =
     Inr (if list_ex (\<lambda>b. bgrm_error b < 0) chain then UNIFYCR_ERROR_MDHIM else rc,
          if chain = [] then keyval else map keyval_of (kvs (last chain)),
          tot_num + length chain)"
  by (induction chain arbitrary: rc keyval tot_num) (auto simp: calloc_def)

text \<open>
  C10. When memory is there, \<^verbatim>\<open>unifycr_get_file_extents\<close> sets \<^verbatim>\<open>*num_values\<close> to the
  number of batches of the reply chain, and \<^verbatim>\<open>*keyval\<close> holds the pairs of the last batch
  only (it is left as it was when the chain is empty). For a reply of two batches with two
  pairs and one pair, \<^verbatim>\<open>*num_values\<close> is 2 and \<^verbatim>\<open>*keyval\<close> has the one pair of the
  second batch.
\<close>

theorem get_file_extents_last_batch:
  "unifycr_get_file_extents mdhimBGet [] num_keys keys keyval =
     Inr (if list_ex (\<lambda>b. bgrm_error b < 0) (mdhimBGet (MDHIM_RANGE_BGET 0 keys num_keys))
          then UNIFYCR_ERROR_MDHIM else UNIFYCR_SUCCESS,
          length (mdhimBGet (MDHIM_RANGE_BGET 0 keys num_keys)),
          if mdhimBGet (MDHIM_RANGE_BGET 0 keys num_keys) = [] then keyval
          else map keyval_of (kvs (last (mdhimBGet (MDHIM_RANGE_BGET 0 keys num_keys)))))
   \<and> unifycr_get_file_extents
       (kv_batches
          [\<lparr>bgrm_error = 0,
            kvs = [(\<lparr>fid = 1, offset = 0\<rparr>,
                    \<lparr>ev_addr = 4096, ev_len = 10, ev_app_rank_id = 0, ev_delegator_id = 0\<rparr>),
                   (\<lparr>fid = 1, offset = 10\<rparr>,
                    \<lparr>ev_addr = 8192, ev_len = 10, ev_app_rank_id = 0, ev_delegator_id = 0\<rparr>)]\<rparr>,
           \<lparr>bgrm_error = 0,
            kvs = [(\<lparr>fid = 1, offset = 20\<rparr>,
                    \<lparr>ev_addr = 0, ev_len = 5, ev_app_rank_id = 0, ev_delegator_id = 1\<rparr>)]\<rparr>])
       [] 2 [\<lparr>fid = 1, offset = 0\<rparr>, \<lparr>fid = 1, offset = 24\<rparr>] []
     = Inr (UNIFYCR_SUCCESS, 2,
            [\<lparr>key = \<lparr>fid = 1, offset = 20\<rparr>,
              val = \<lparr>ev_addr = 5, ev_len = 0, ev_app_rank_id = 0, ev_delegator_id = 1\<rparr>\<rparr>])"
proof -
  have general: "unifycr_get_file_extents get [] n ks kv0 =
     Inr (if list_ex (\<lambda>b. bgrm_error b < 0) (get (MDHIM_RANGE_BGET 0 ks n))
          then UNIFYCR_ERROR_MDHIM else UNIFYCR_SUCCESS,
          length (get (MDHIM_RANGE_BGET 0 ks n)),
          if get (MDHIM_RANGE_BGET 0 ks n) = [] then kv0
          else map keyval_of (kvs (last (get (MDHIM_RANGE_BGET 0 ks n)))))" for get n ks kv0
    by (simp add: unifycr_get_file_extents_def get_file_extents_loop_nil
        del: get_file_extents_loop.simps)
  show ?thesis unfolding general by (simp add: kv_batches_def keyval_of_def)
qed

end
